theory Spec2Isabelle
  imports Main "HOL-Library.Char_ord" "HOL-Library.AList"
begin

section \<open>Common conventions\<close>

text \<open>
  The three classes of \<^verbatim>\<open>encapsulation hw\<close> are embedded by explicit state passing:
  every method takes the object and returns the updated object beside its result.
  A Python \<^verbatim>\<open>str\<close> is a \<^typ>\<open>string\<close>; a log entry (a dict with fixed keys) is a
  record; a raised \<^verbatim>\<open>ValueError\<close> is the left summand of a sum type.

  Every log entry stores \<^verbatim>\<open>datetime.now().isoformat()\<close>. The clock is an input of the
  program, so each method that reads it once takes the reading as its first argument
  \<open>now\<close>; a method that reads it several times takes a function \<open>clk\<close> whose value
  at \<open>k\<close> is the reading of the \<open>k\<close>-th call made while the method runs.
\<close>

type_synonym timestamp = string

text \<open>\<^verbatim>\<open>str(n)\<close> for a non-negative integer, used by an f-string.\<close>

fun str_nat :: "nat \<Rightarrow> string" where
  "str_nat n =
     (if n < 10 then [char_of (48 + n)]
      else str_nat (n div 10) @ [char_of (48 + n mod 10)])"

declare str_nat.simps [simp del]


section \<open>account_access.py: class AccountAccess\<close>

text \<open>One entry of \<^verbatim>\<open>__permission_history\<close>, the dict built by
  \<^verbatim>\<open>__log_permission_change\<close>.\<close>

record permission_entry =
  pe_timestamp :: timestamp
  pe_action :: string
  pe_description :: string
  pe_current_permissions :: "string list"

record AccountAccess =
  permissions :: "string list"
  permission_history :: "permission_entry list"

definition RESTRICTED_PERMISSIONS :: "string set" where
  "RESTRICTED_PERMISSIONS = {''TRANSFER'', ''WITHDRAW''}"

definition ALLOWED_PERMISSIONS :: "string set" where
  "ALLOWED_PERMISSIONS =
     {''VIEW_BALANCE'', ''VIEW_TRANSACTIONS'', ''TRANSFER'',
      ''WITHDRAW'', ''DEPOSIT'', ''UPDATE_PROFILE''}"

definition log_permission_change ::
  "timestamp \<Rightarrow> string \<Rightarrow> string \<Rightarrow> AccountAccess \<Rightarrow> AccountAccess" where
  "log_permission_change now action description a =
     a\<lparr>permission_history := permission_history a @
          [\<lparr>pe_timestamp = now, pe_action = action, pe_description = description,
            pe_current_permissions = permissions a\<rparr>]\<rparr>"

definition AccountAccess_init :: "timestamp \<Rightarrow> AccountAccess" where
  "AccountAccess_init now =
     log_permission_change now ''INITIALIZED'' ''Account access created''
       \<lparr>permissions = [], permission_history = []\<rparr>"

definition get_permissions :: "AccountAccess \<Rightarrow> string list" where
  "get_permissions a = permissions a"

definition add_permission ::
  "timestamp \<Rightarrow> string \<Rightarrow> bool \<Rightarrow> AccountAccess \<Rightarrow> (bool \<times> string) \<times> AccountAccess" where
  "add_permission now permission is_verified a =
     (if permission \<notin> ALLOWED_PERMISSIONS then
        (let message = ''Invalid permission: '' @ permission
         in ((False, message), log_permission_change now ''ADD_FAILED'' message a))
      else if permission \<in> set (permissions a) then
        (let message = ''Permission already granted: '' @ permission
         in ((False, message), log_permission_change now ''ADD_DUPLICATE'' message a))
      else if permission \<in> RESTRICTED_PERMISSIONS \<and> \<not> is_verified then
        (let message = ''Cannot grant '' @ [CHR 0x27] @ permission @ [CHR 0x27] @
                       '' - user must be VERIFIED''
         in ((False, message), log_permission_change now ''ADD_DENIED'' message a))
      else
        (let a1 = a\<lparr>permissions := permissions a @ [permission]\<rparr>;
             message = ''Permission granted: '' @ permission
         in ((True, message), log_permission_change now ''ADD_SUCCESS'' message a1)))"

definition remove_permission ::
  "timestamp \<Rightarrow> string \<Rightarrow> AccountAccess \<Rightarrow> (bool \<times> string) \<times> AccountAccess" where
  "remove_permission now permission a =
     (if permission \<in> set (permissions a) then
        (let a1 = a\<lparr>permissions := remove1 permission (permissions a)\<rparr>;
             message = ''Permission revoked: '' @ permission
         in ((True, message), log_permission_change now ''REMOVE_SUCCESS'' message a1))
      else
        (let message = ''Permission not found: '' @ permission
         in ((False, message), log_permission_change now ''REMOVE_FAILED'' message a)))"

definition has_permission :: "AccountAccess \<Rightarrow> string \<Rightarrow> bool" where
  "has_permission a permission = (permission \<in> set (permissions a))"

definition clear_all_permissions :: "timestamp \<Rightarrow> AccountAccess \<Rightarrow> nat \<times> AccountAccess" where
  "clear_all_permissions now a =
     (let count = length (permissions a);
          a1 = a\<lparr>permissions := []\<rparr>
      in (count,
          log_permission_change now ''CLEAR_ALL''
            (''Cleared '' @ str_nat count @ '' permissions'') a1))"

definition get_permission_history :: "AccountAccess \<Rightarrow> permission_entry list" where
  "get_permission_history a = permission_history a"

text \<open>
  A caller's use of an \<^verbatim>\<open>AccountAccess\<close>: any sequence of its three mutating methods,
  each with the clock reading of its one log entry, starting from the constructor.
\<close>

datatype access_call =
  AddPermission timestamp string bool
| RemovePermission timestamp string
| ClearAllPermissions timestamp

fun access_step :: "AccountAccess \<Rightarrow> access_call \<Rightarrow> AccountAccess" where
  "access_step a (AddPermission now p v) = snd (add_permission now p v a)"
| "access_step a (RemovePermission now p) = snd (remove_permission now p a)"
| "access_step a (ClearAllPermissions now) = snd (clear_all_permissions now a)"

definition access_run :: "timestamp \<Rightarrow> access_call list \<Rightarrow> AccountAccess" where
  "access_run t0 calls = foldl access_step (AccountAccess_init t0) calls"

text \<open>The invariant of the permission list: only allowed names, none twice.\<close>

definition granted_ok :: "AccountAccess \<Rightarrow> bool" where
  "granted_ok a = (set (permissions a) \<subseteq> ALLOWED_PERMISSIONS \<and> distinct (permissions a))"


section \<open>Python's \<^verbatim>\<open>re.match\<close>, as far as user_identity.py uses it\<close>

text \<open>
  The two patterns of \<^verbatim>\<open>user_identity.py\<close> use character classes, concatenation,
  \<^verbatim>\<open>+\<close>, \<^verbatim>\<open>{m,n}\<close> and \<^verbatim>\<open>{m,}\<close>, between \<^verbatim>\<open>^\<close> and \<^verbatim>\<open>$\<close>. A pattern body is a
  value of \<open>regex\<close>; a class is a list of inclusive character ranges. Whether a whole
  string belongs to the body is decided by derivatives, which accept exactly the strings
  for which a backtracking matcher finds a match of the whole string.

  Characters are the 256 values of \<^typ>\<open>char\<close>, read as code points. On these,
  \<^verbatim>\<open>\d\<close> is the range \<^verbatim>\<open>0-9\<close>.
\<close>

datatype regex =
  Never
| Empty
| Class "(char \<times> char) list"
| Alt regex regex
| Cat regex regex
| Star regex

fun in_class :: "char \<Rightarrow> (char \<times> char) list \<Rightarrow> bool" where
  "in_class c [] = False"
| "in_class c ((lo, hi) # rs) = ((lo \<le> c \<and> c \<le> hi) \<or> in_class c rs)"

fun nullable :: "regex \<Rightarrow> bool" where
  "nullable Never = False"
| "nullable Empty = True"
| "nullable (Class rs) = False"
| "nullable (Alt r s) = (nullable r \<or> nullable s)"
| "nullable (Cat r s) = (nullable r \<and> nullable s)"
| "nullable (Star r) = True"

fun deriv :: "char \<Rightarrow> regex \<Rightarrow> regex" where
  "deriv c Never = Never"
| "deriv c Empty = Never"
| "deriv c (Class rs) = (if in_class c rs then Empty else Never)"
| "deriv c (Alt r s) = Alt (deriv c r) (deriv c s)"
| "deriv c (Cat r s) =
     (if nullable r then Alt (Cat (deriv c r) s) (deriv c s) else Cat (deriv c r) s)"
| "deriv c (Star r) = Cat (deriv c r) (Star r)"

fun fullmatch :: "regex \<Rightarrow> string \<Rightarrow> bool" where
  "fullmatch r [] = nullable r"
| "fullmatch r (c # cs) = fullmatch (deriv c r) cs"

text \<open>
  The strings of a pattern body, to say what \<open>fullmatch\<close> decides: a class stands for
  its characters, \<open>Alt\<close> for either side, \<open>Cat\<close> for one string followed by another,
  \<open>Star\<close> for any number of repetitions.
\<close>

inductive_set star :: "string set \<Rightarrow> string set" for A :: "string set" where
  star_empty: "[] \<in> star A"
| star_more: "u \<in> A \<Longrightarrow> v \<in> star A \<Longrightarrow> u @ v \<in> star A"

fun lang :: "regex \<Rightarrow> string set" where
  "lang Never = {}"
| "lang Empty = {[]}"
| "lang (Class rs) = {[c] | c. in_class c rs}"
| "lang (Alt r s) = lang r \<union> lang s"
| "lang (Cat r s) = {u @ v | u v. u \<in> lang r \<and> v \<in> lang s}"
| "lang (Star r) = star (lang r)"

text \<open>The pattern syntax: a literal character, \<^verbatim>\<open>r+\<close>, \<^verbatim>\<open>r{m,n}\<close> and \<^verbatim>\<open>r{m,}\<close>.\<close>

definition Lit :: "char \<Rightarrow> regex" where
  "Lit c = Class [(c, c)]"

definition Plus :: "regex \<Rightarrow> regex" where
  "Plus r = Cat r (Star r)"

fun Exactly :: "nat \<Rightarrow> regex \<Rightarrow> regex" where
  "Exactly 0 r = Empty"
| "Exactly (Suc n) r = Cat r (Exactly n r)"

fun AtMost :: "nat \<Rightarrow> regex \<Rightarrow> regex" where
  "AtMost 0 r = Empty"
| "AtMost (Suc n) r = Alt Empty (Cat r (AtMost n r))"

definition Between :: "nat \<Rightarrow> nat \<Rightarrow> regex \<Rightarrow> regex" where
  "Between m n r = Cat (Exactly m r) (AtMost (n - m) r)"

definition AtLeast :: "nat \<Rightarrow> regex \<Rightarrow> regex" where
  "AtLeast m r = Cat (Exactly m r) (Star r)"

text \<open>
  \<^verbatim>\<open>bool(re.match('^' + body + '$', s))\<close> with no flags. \<^verbatim>\<open>re.match\<close> starts at
  position 0, where \<^verbatim>\<open>^\<close> holds. Without \<^verbatim>\<open>re.MULTILINE\<close>, \<^verbatim>\<open>$\<close> holds at the end of
  the string and also just before a newline that is the last character of the string.
  So the body has to consume the whole string, or the whole string but a final newline.
\<close>

definition re_match_anchored :: "regex \<Rightarrow> string \<Rightarrow> bool" where
  "re_match_anchored body s =
     (fullmatch body s \<or> (s \<noteq> [] \<and> last s = CHR 0x0A \<and> fullmatch body (butlast s)))"


section \<open>user_identity.py: class UserIdentity\<close>

datatype error = ValueError string

text \<open>One entry of \<^verbatim>\<open>__state_history\<close>, the dict built by \<^verbatim>\<open>__log_state_change\<close>.\<close>

record state_entry =
  se_timestamp :: timestamp
  se_action :: string
  se_description :: string
  se_status :: string

text \<open>\<^verbatim>\<open>_email\<close> and \<^verbatim>\<open>__phone_number\<close> are \<^verbatim>\<open>None\<close> until their setters have run.\<close>

record UserIdentity =
  username :: string
  email :: "string option"
  phone_number :: "string option"
  verification_status :: string
  state_history :: "state_entry list"

text \<open>The pattern \<^verbatim>\<open>^[a-zA-Z0-9._%+-]+@[a-zA-Z0-9.-]+\.[a-zA-Z]{2,}$\<close>, without its anchors.\<close>

definition email_pattern :: regex where
  "email_pattern =
     Cat (Plus (Class [(CHR ''a'', CHR ''z''), (CHR ''A'', CHR ''Z''), (CHR ''0'', CHR ''9''),
                       (CHR ''.'', CHR ''.''), (CHR ''_'', CHR ''_''), (CHR ''%'', CHR ''%''),
                       (CHR ''+'', CHR ''+''), (CHR ''-'', CHR ''-'')]))
    (Cat (Lit CHR ''@'')
    (Cat (Plus (Class [(CHR ''a'', CHR ''z''), (CHR ''A'', CHR ''Z''), (CHR ''0'', CHR ''9''),
                       (CHR ''.'', CHR ''.''), (CHR ''-'', CHR ''-'')]))
    (Cat (Lit CHR ''.'')
         (AtLeast 2 (Class [(CHR ''a'', CHR ''z''), (CHR ''A'', CHR ''Z'')])))))"

definition validate_email :: "string \<Rightarrow> bool" where
  "validate_email e = re_match_anchored email_pattern e"

text \<open>The pattern \<^verbatim>\<open>^\+\d{1,3}-\d{2,3}-\d{3,4}-\d{4,5}$\<close>, without its anchors.\<close>

definition digit :: regex where
  "digit = Class [(CHR ''0'', CHR ''9'')]"

definition phone_pattern :: regex where
  "phone_pattern =
     Cat (Lit CHR ''+'')
    (Cat (Between 1 3 digit)
    (Cat (Lit CHR ''-'')
    (Cat (Between 2 3 digit)
    (Cat (Lit CHR ''-'')
    (Cat (Between 3 4 digit)
    (Cat (Lit CHR ''-'')
         (Between 4 5 digit)))))))"

definition validate_phone :: "string \<Rightarrow> bool" where
  "validate_phone phone = re_match_anchored phone_pattern phone"

definition log_state_change ::
  "timestamp \<Rightarrow> string \<Rightarrow> string \<Rightarrow> UserIdentity \<Rightarrow> UserIdentity" where
  "log_state_change now action description u =
     u\<lparr>state_history := state_history u @
          [\<lparr>se_timestamp = now, se_action = action, se_description = description,
            se_status = verification_status u\<rparr>]\<rparr>"

text \<open>\<^verbatim>\<open>str(x)\<close> of an optional string inside an f-string.\<close>

definition str_opt :: "string option \<Rightarrow> string" where
  "str_opt x = (case x of None \<Rightarrow> ''None'' | Some s \<Rightarrow> s)"

definition set_email :: "timestamp \<Rightarrow> string \<Rightarrow> UserIdentity \<Rightarrow> error + UserIdentity" where
  "set_email now new_email u =
     (if validate_email new_email then
        (let old_email = email u;
             u1 = u\<lparr>email := Some new_email\<rparr>
         in Inr (log_state_change now ''EMAIL_CHANGED''
                   (''Email changed from '' @ str_opt old_email @ '' to '' @ new_email) u1))
      else Inl (ValueError (''Invalid email format: '' @ new_email)))"

definition set_phone_number :: "timestamp \<Rightarrow> string \<Rightarrow> UserIdentity \<Rightarrow> error + UserIdentity" where
  "set_phone_number now phone u =
     (if validate_phone phone then
        Inr (log_state_change now ''PHONE_SET'' (''Phone number set to '' @ phone)
               (u\<lparr>phone_number := Some phone\<rparr>))
      else Inl (ValueError (''Invalid phone format: '' @ phone)))"

text \<open>
  \<^verbatim>\<open>__init__\<close>: an exception of either setter leaves the constructor, and then there is
  no object. The three clock readings are those of the three history entries.
\<close>

definition UserIdentity_init ::
  "(nat \<Rightarrow> timestamp) \<Rightarrow> string \<Rightarrow> string \<Rightarrow> string \<Rightarrow> error + UserIdentity" where
  "UserIdentity_init clk name new_email phone =
     (let u0 = \<lparr>username = name, email = None, phone_number = None,
                verification_status = ''UNVERIFIED'', state_history = []\<rparr>
      in case set_email (clk 0) new_email u0 of
           Inl e \<Rightarrow> Inl e
         | Inr u1 \<Rightarrow>
             (case set_phone_number (clk 1) phone u1 of
                Inl e \<Rightarrow> Inl e
              | Inr u2 \<Rightarrow> Inr (log_state_change (clk 2) ''INITIALIZED''
                                  ''User identity created'' u2)))"

definition get_email :: "UserIdentity \<Rightarrow> string option" where
  "get_email u = email u"

definition get_phone_number :: "UserIdentity \<Rightarrow> string option" where
  "get_phone_number u = phone_number u"

definition get_verification_status :: "UserIdentity \<Rightarrow> string" where
  "get_verification_status u = verification_status u"

definition request_verification :: "timestamp \<Rightarrow> UserIdentity \<Rightarrow> bool \<times> UserIdentity" where
  "request_verification now u =
     (if verification_status u = ''UNVERIFIED'' then
        (True, log_state_change now ''VERIFICATION_REQUESTED''
                 ''Status changed from UNVERIFIED to PENDING''
                 (u\<lparr>verification_status := ''PENDING''\<rparr>))
      else
        (False, log_state_change now ''VERIFICATION_REQUEST_DENIED''
                  (''Cannot request verification from '' @ verification_status u @ '' state'')
                  u))"

definition verify :: "timestamp \<Rightarrow> UserIdentity \<Rightarrow> bool \<times> UserIdentity" where
  "verify now u =
     (if verification_status u = ''PENDING'' then
        (True, log_state_change now ''VERIFIED''
                 ''Status changed from PENDING to VERIFIED''
                 (u\<lparr>verification_status := ''VERIFIED''\<rparr>))
      else
        (False, log_state_change now ''VERIFICATION_DENIED''
                  (''Cannot verify from '' @ verification_status u @ '' state'') u))"

definition get_state_history :: "UserIdentity \<Rightarrow> state_entry list" where
  "get_state_history u = state_history u"

text \<open>A caller's use of the verification state machine: any sequence of the two calls.\<close>

datatype identity_call = RequestVerification timestamp | Verify timestamp

fun identity_step :: "UserIdentity \<Rightarrow> identity_call \<Rightarrow> UserIdentity" where
  "identity_step u (RequestVerification now) = snd (request_verification now u)"
| "identity_step u (Verify now) = snd (verify now u)"

text \<open>The position of a status along \<^verbatim>\<open>UNVERIFIED\<close>, \<^verbatim>\<open>PENDING\<close>, \<^verbatim>\<open>VERIFIED\<close>.\<close>

definition status_rank :: "string \<Rightarrow> nat" where
  "status_rank s = (if s = ''UNVERIFIED'' then 0 else if s = ''PENDING'' then 1 else 2)"



section \<open>secure_user.py: class SecureUser\<close>

text \<open>
  One entry of \<^verbatim>\<open>__audit_log\<close>, the dict built by \<^verbatim>\<open>__log_action\<close>. The key
  \<^verbatim>\<open>details\<close> is present only when a non-empty dict was passed; its values are
  strings and booleans.
\<close>

datatype detail_value = DStr string | DBool bool

record audit_entry =
  ae_timestamp :: timestamp
  ae_action :: string
  ae_description :: string
  ae_success :: bool
  ae_user :: string
  ae_verification_status :: string
  ae_details :: "(string \<times> detail_value) list option"

record SecureUser =
  identity :: UserIdentity
  access :: AccountAccess
  audit_log :: "audit_entry list"

definition log_action ::
  "timestamp \<Rightarrow> string \<Rightarrow> string \<Rightarrow> bool \<Rightarrow> (string \<times> detail_value) list option \<Rightarrow>
   SecureUser \<Rightarrow> SecureUser" where
  "log_action now action description success details su =
     su\<lparr>audit_log := audit_log su @
          [\<lparr>ae_timestamp = now, ae_action = action, ae_description = description,
            ae_success = success, ae_user = username (identity su),
            ae_verification_status = get_verification_status (identity su),
            ae_details = (case details of
                            None \<Rightarrow> None
                          | Some d \<Rightarrow> if d = [] then None else Some d)\<rparr>]\<rparr>"

text \<open>
  \<^verbatim>\<open>__init__\<close>: the identity's constructor reads the clock three times, the access
  object's once, and the \<^verbatim>\<open>USER_CREATED\<close> entry once. An exception of the identity's
  constructor leaves this constructor too.
\<close>

definition SecureUser_init ::
  "(nat \<Rightarrow> timestamp) \<Rightarrow> string \<Rightarrow> string \<Rightarrow> string \<Rightarrow> error + SecureUser" where
  "SecureUser_init clk name new_email phone =
     (case UserIdentity_init clk name new_email phone of
        Inl e \<Rightarrow> Inl e
      | Inr idn \<Rightarrow>
          Inr (log_action (clk 4) ''USER_CREATED'' (''SecureUser created for '' @ name) True None
                 \<lparr>identity = idn, access = AccountAccess_init (clk 3), audit_log = []\<rparr>))"

definition grant_permission ::
  "(nat \<Rightarrow> timestamp) \<Rightarrow> string \<Rightarrow> SecureUser \<Rightarrow> (bool \<times> string) \<times> SecureUser" where
  "grant_permission clk permission su =
     (let is_verified = (get_verification_status (identity su) = ''VERIFIED'');
          ((success, message), acc) = add_permission (clk 0) permission is_verified (access su)
      in ((success, message),
          log_action (clk 1) ''GRANT_PERMISSION''
            (''Attempted to grant '' @ [CHR 0x27] @ permission @ [CHR 0x27] @ '': '' @ message)
            success
            (Some [(''permission'', DStr permission), (''verified'', DBool is_verified)])
            (su\<lparr>access := acc\<rparr>)))"

definition revoke_permission ::
  "(nat \<Rightarrow> timestamp) \<Rightarrow> string \<Rightarrow> SecureUser \<Rightarrow> (bool \<times> string) \<times> SecureUser" where
  "revoke_permission clk permission su =
     (let ((success, message), acc) = remove_permission (clk 0) permission (access su)
      in ((success, message),
          log_action (clk 1) ''REVOKE_PERMISSION''
            (''Attempted to revoke '' @ [CHR 0x27] @ permission @ [CHR 0x27] @ '': '' @ message)
            success
            (Some [(''permission'', DStr permission)])
            (su\<lparr>access := acc\<rparr>)))"

definition SecureUser_has_permission :: "SecureUser \<Rightarrow> string \<Rightarrow> bool" where
  "SecureUser_has_permission su permission = has_permission (access su) permission"

definition SecureUser_get_permissions :: "SecureUser \<Rightarrow> string list" where
  "SecureUser_get_permissions su = get_permissions (access su)"

definition SecureUser_request_verification ::
  "(nat \<Rightarrow> timestamp) \<Rightarrow> SecureUser \<Rightarrow> bool \<times> SecureUser" where
  "SecureUser_request_verification clk su =
     (let (success, idn) = request_verification (clk 0) (identity su)
      in (success,
          log_action (clk 1) ''REQUEST_VERIFICATION''
            (''Verification request: '' @ (if success then ''successful'' else ''failed''))
            success None (su\<lparr>identity := idn\<rparr>)))"

definition verify_identity :: "(nat \<Rightarrow> timestamp) \<Rightarrow> SecureUser \<Rightarrow> bool \<times> SecureUser" where
  "verify_identity clk su =
     (let (success, idn) = verify (clk 0) (identity su)
      in (success,
          log_action (clk 1) ''VERIFY_IDENTITY''
            (''Identity verification: '' @ (if success then ''successful'' else ''failed''))
            success None (su\<lparr>identity := idn\<rparr>)))"

text \<open>The dict returned by \<^verbatim>\<open>identity_status\<close>.\<close>

record status_report =
  sr_username :: string
  sr_email :: "string option"
  sr_phone :: "string option"
  sr_verification_status :: string
  sr_permissions :: "string list"

definition identity_status :: "SecureUser \<Rightarrow> status_report" where
  "identity_status su =
     \<lparr>sr_username = username (identity su),
      sr_email = get_email (identity su),
      sr_phone = get_phone_number (identity su),
      sr_verification_status = get_verification_status (identity su),
      sr_permissions = get_permissions (access su)\<rparr>"

text \<open>
  \<^verbatim>\<open>update_email\<close>: the \<^verbatim>\<open>except ValueError\<close> branch turns the setter's exception
  into a result; \<^verbatim>\<open>str(e)\<close> is the exception's message. When the setter raises it has
  not read the clock, so the audit entry gets the first reading.
\<close>

definition update_email ::
  "(nat \<Rightarrow> timestamp) \<Rightarrow> string \<Rightarrow> SecureUser \<Rightarrow> (bool \<times> string) \<times> SecureUser" where
  "update_email clk new_email su =
     (case set_email (clk 0) new_email (identity su) of
        Inr idn \<Rightarrow>
          ((True, ''Email updated successfully''),
           log_action (clk 1) ''UPDATE_EMAIL'' (''Email updated to '' @ new_email) True None
             (su\<lparr>identity := idn\<rparr>))
      | Inl (ValueError msg) \<Rightarrow>
          ((False, msg),
           log_action (clk 0) ''UPDATE_EMAIL'' (''Failed to update email: '' @ msg) False None
             su))"

definition get_audit_log :: "SecureUser \<Rightarrow> audit_entry list" where
  "get_audit_log su = audit_log su"

text \<open>
  A caller's use of a \<^verbatim>\<open>SecureUser\<close>: any sequence of its five mutating methods, each
  with the clock it reads.
\<close>

datatype user_call =
  GrantPermission "nat \<Rightarrow> timestamp" string
| RevokePermission "nat \<Rightarrow> timestamp" string
| RequestVerificationCall "nat \<Rightarrow> timestamp"
| VerifyIdentity "nat \<Rightarrow> timestamp"
| UpdateEmail "nat \<Rightarrow> timestamp" string

fun user_step :: "SecureUser \<Rightarrow> user_call \<Rightarrow> SecureUser" where
  "user_step su (GrantPermission clk p) = snd (grant_permission clk p su)"
| "user_step su (RevokePermission clk p) = snd (revoke_permission clk p su)"
| "user_step su (RequestVerificationCall clk) = snd (SecureUser_request_verification clk su)"
| "user_step su (VerifyIdentity clk) = snd (verify_identity clk su)"
| "user_step su (UpdateEmail clk e) = snd (update_email clk e su)"

text \<open>Whether the call reported success to its caller.\<close>

fun user_call_success :: "SecureUser \<Rightarrow> user_call \<Rightarrow> bool" where
  "user_call_success su (GrantPermission clk p) = fst (fst (grant_permission clk p su))"
| "user_call_success su (RevokePermission clk p) = fst (fst (revoke_permission clk p su))"
| "user_call_success su (RequestVerificationCall clk) =
     fst (SecureUser_request_verification clk su)"
| "user_call_success su (VerifyIdentity clk) = fst (verify_identity clk su)"
| "user_call_success su (UpdateEmail clk e) = fst (fst (update_email clk e su))"



section \<open>The lists behind the accessors, as objects in a store\<close>

text \<open>
  \<^verbatim>\<open>get_permissions\<close>, \<^verbatim>\<open>get_audit_log\<close> and \<^verbatim>\<open>identity_status\<close> return
  \<^verbatim>\<open>self.__permissions.copy()\<close> and \<^verbatim>\<open>self.__audit_log.copy()\<close>. What a caller can do
  with the returned list depends on which objects are shared, so here the lists and dicts
  are objects in a store. An address is an index into the store; allocation appends. A
  list holds values, and a value is an immutable atom or a reference to an object: the
  permission list holds strings, the audit log holds references to its entry dicts.
\<close>

datatype pyval = VStr string | VBool bool | VNone | VRef nat

datatype pyobj = ListObj "pyval list" | DictObj "(string \<times> pyval) list"

type_synonym store = "pyobj list"

text \<open>\<^verbatim>\<open>xs.copy()\<close> of the list at address \<open>a\<close>: a new list object with the same items.\<close>

definition list_copy :: "nat \<Rightarrow> store \<Rightarrow> (nat \<times> store) option" where
  "list_copy a h =
     (if a < length h then
        (case h ! a of
           ListObj xs \<Rightarrow> Some (length h, h @ [ListObj xs])
         | DictObj kvs \<Rightarrow> None)
      else None)"

text \<open>
  A \<^verbatim>\<open>SecureUser\<close> in the store: the addresses held by \<^verbatim>\<open>__access.__permissions\<close> and
  \<^verbatim>\<open>__audit_log\<close>, and the identity, whose attributes read by \<^verbatim>\<open>identity_status\<close>
  are immutable.
\<close>

record SecureUser_object =
  obj_identity :: UserIdentity
  obj_permissions :: nat
  obj_audit_log :: nat

definition val_opt :: "string option \<Rightarrow> pyval" where
  "val_opt x = (case x of None \<Rightarrow> VNone | Some s \<Rightarrow> VStr s)"

definition store_get_permissions :: "SecureUser_object \<Rightarrow> store \<Rightarrow> (nat \<times> store) option" where
  "store_get_permissions ob h = list_copy (obj_permissions ob) h"

definition store_get_audit_log :: "SecureUser_object \<Rightarrow> store \<Rightarrow> (nat \<times> store) option" where
  "store_get_audit_log ob h = list_copy (obj_audit_log ob) h"

definition store_identity_status :: "SecureUser_object \<Rightarrow> store \<Rightarrow> (nat \<times> store) option" where
  "store_identity_status ob h =
     (case list_copy (obj_permissions ob) h of
        None \<Rightarrow> None
      | Some (r, h1) \<Rightarrow>
          Some (length h1,
                h1 @ [DictObj
                  [(''username'', VStr (username (obj_identity ob))),
                   (''email'', val_opt (get_email (obj_identity ob))),
                   (''phone'', val_opt (get_phone_number (obj_identity ob))),
                   (''verification_status'', VStr (get_verification_status (obj_identity ob))),
                   (''permissions'', VRef r)]]))"

text \<open>
  The three ways to obtain one of the two sequences, each giving the address of the
  returned list: \<^verbatim>\<open>get_permissions()\<close>, \<^verbatim>\<open>get_audit_log()\<close> and
  \<^verbatim>\<open>identity_status()['permissions']\<close>.
\<close>

datatype accessor = GetPermissions | GetAuditLog | StatusPermissions

fun accessor_call :: "accessor \<Rightarrow> SecureUser_object \<Rightarrow> store \<Rightarrow> (nat \<times> store) option" where
  "accessor_call GetPermissions ob h = store_get_permissions ob h"
| "accessor_call GetAuditLog ob h = store_get_audit_log ob h"
| "accessor_call StatusPermissions ob h =
     (case store_identity_status ob h of
        None \<Rightarrow> None
      | Some (d, h1) \<Rightarrow>
          (case h1 ! d of
             DictObj kvs \<Rightarrow>
               (case map_of kvs ''permissions'' of
                  Some (VRef r) \<Rightarrow> Some (r, h1)
                | _ \<Rightarrow> None)
           | ListObj xs \<Rightarrow> None))"

text \<open>The attribute whose list the accessor copies.\<close>

definition accessor_source :: "accessor \<Rightarrow> SecureUser_object \<Rightarrow> nat" where
  "accessor_source acc ob =
     (case acc of GetAuditLog \<Rightarrow> obj_audit_log ob | _ \<Rightarrow> obj_permissions ob)"

text \<open>
  A mutation of the list object at address \<open>r\<close>: after any of \<^verbatim>\<open>append\<close>,
  \<^verbatim>\<open>extend\<close>, \<^verbatim>\<open>insert\<close>, \<^verbatim>\<open>remove\<close>, \<^verbatim>\<open>pop\<close>, \<^verbatim>\<open>clear\<close>, \<^verbatim>\<open>sort\<close>,
  \<^verbatim>\<open>reverse\<close>, or an assignment to or deletion of an item or slice, the object holds
  some list of items \<open>xs\<close>, and no other object has changed.
\<close>

definition mutate_list :: "nat \<Rightarrow> pyval list \<Rightarrow> store \<Rightarrow> store" where
  "mutate_list r xs h = h[r := ListObj xs]"

text \<open>\<^verbatim>\<open>d[k] = v\<close> on the dict at address \<open>a\<close>.\<close>

definition dict_setitem :: "nat \<Rightarrow> string \<Rightarrow> pyval \<Rightarrow> store \<Rightarrow> store" where
  "dict_setitem a k v h =
     (if a < length h then
        (case h ! a of
           DictObj kvs \<Rightarrow> h[a := DictObj (AList.update k v kvs)]
         | ListObj xs \<Rightarrow> h)
      else h)"

text \<open>
  What a caller reads: \<^verbatim>\<open>xs[i]\<close> on the list at address \<open>a\<close>, \<^verbatim>\<open>d[k]\<close> on the dict
  at address \<open>a\<close>, and \<^verbatim>\<open>xs[i][k]\<close>, the field of the dict that item \<open>i\<close> refers to.
\<close>

definition list_getitem :: "nat \<Rightarrow> nat \<Rightarrow> store \<Rightarrow> pyval option" where
  "list_getitem a i h =
     (if a < length h then
        (case h ! a of
           ListObj xs \<Rightarrow> if i < length xs then Some (xs ! i) else None
         | DictObj kvs \<Rightarrow> None)
      else None)"

definition dict_getitem :: "nat \<Rightarrow> string \<Rightarrow> store \<Rightarrow> pyval option" where
  "dict_getitem a k h =
     (if a < length h then
        (case h ! a of
           DictObj kvs \<Rightarrow> map_of kvs k
         | ListObj xs \<Rightarrow> None)
      else None)"

definition entry_field :: "nat \<Rightarrow> nat \<Rightarrow> string \<Rightarrow> store \<Rightarrow> pyval option" where
  "entry_field a i k h =
     (case list_getitem a i h of
        Some (VRef e) \<Rightarrow> dict_getitem e k h
      | _ \<Rightarrow> None)"

text \<open>
  What a value shows to whoever reads it, followed through the store to depth \<open>n\<close>:
  two results of an accessor are the same for the caller when they read the same at
  every depth.
\<close>

datatype pytree =
  TStr string | TBool bool | TNone
| TList "pytree list" | TDict "(string \<times> pytree) list"
| TDeeper | TDangling

fun deep :: "nat \<Rightarrow> store \<Rightarrow> pyval \<Rightarrow> pytree" where
  "deep n h (VStr s) = TStr s"
| "deep n h (VBool b) = TBool b"
| "deep n h VNone = TNone"
| "deep 0 h (VRef a) = TDeeper"
| "deep (Suc n) h (VRef a) =
     (if a < length h then
        (case h ! a of
           ListObj xs \<Rightarrow> TList (map (deep n h) xs)
         | DictObj kvs \<Rightarrow> TDict (map (\<lambda>kv. (fst kv, deep n h (snd kv))) kvs))
      else TDangling)"

text \<open>A store without dangling references: every reference in it is an address of it.\<close>

fun refs_of_val :: "pyval \<Rightarrow> nat list" where
  "refs_of_val (VRef a) = [a]"
| "refs_of_val v = []"

fun refs_of_obj :: "pyobj \<Rightarrow> nat list" where
  "refs_of_obj (ListObj xs) = concat (map refs_of_val xs)"
| "refs_of_obj (DictObj kvs) = concat (map (\<lambda>kv. refs_of_val (snd kv)) kvs)"

definition closed_store :: "store \<Rightarrow> bool" where
  "closed_store h = list_all (\<lambda>ob. list_all (\<lambda>a. a < length h) (refs_of_obj ob)) h"


text \<open>
  The objects of a \<^verbatim>\<open>SecureUser\<close> laid out in a store, as the methods create them:
  for every audit entry the \<^verbatim>\<open>details\<close> dict, when one was passed, and the entry dict
  that refers to it; then the list \<^verbatim>\<open>__audit_log\<close> of references to the entries, and
  the list \<^verbatim>\<open>__permissions\<close> of strings.
\<close>

definition detail_val :: "detail_value \<Rightarrow> pyval" where
  "detail_val v = (case v of DStr s \<Rightarrow> VStr s | DBool b \<Rightarrow> VBool b)"

definition entry_items :: "audit_entry \<Rightarrow> (string \<times> pyval) list" where
  "entry_items e =
     [(''timestamp'', VStr (ae_timestamp e)),
      (''action'', VStr (ae_action e)),
      (''description'', VStr (ae_description e)),
      (''success'', VBool (ae_success e)),
      (''user'', VStr (ae_user e)),
      (''verification_status'', VStr (ae_verification_status e))]"

definition alloc_entry :: "audit_entry \<Rightarrow> store \<Rightarrow> nat \<times> store" where
  "alloc_entry e h =
     (case ae_details e of
        None \<Rightarrow> (length h, h @ [DictObj (entry_items e)])
      | Some d \<Rightarrow>
          (Suc (length h),
           h @ [DictObj (map (\<lambda>kv. (fst kv, detail_val (snd kv))) d),
                DictObj (entry_items e @ [(''details'', VRef (length h))])]))"

fun alloc_entries :: "audit_entry list \<Rightarrow> store \<Rightarrow> nat list \<times> store" where
  "alloc_entries [] h = ([], h)"
| "alloc_entries (e # es) h =
     (let (a, h1) = alloc_entry e h;
          (as, h2) = alloc_entries es h1
      in (a # as, h2))"

definition store_of :: "SecureUser \<Rightarrow> SecureUser_object \<times> store" where
  "store_of su =
     (let (refs, h1) = alloc_entries (audit_log su) [];
          h2 = h1 @ [ListObj (map VRef refs)];
          h3 = h2 @ [ListObj (map VStr (permissions (access su)))]
      in (\<lparr>obj_identity = identity su, obj_permissions = length h2, obj_audit_log = length h1\<rparr>,
          h3))"


section \<open>The shapes of the specification\<close>

text \<open>
  The phone shape as the specification words it:
  \<^verbatim>\<open>+<1-3 digits>-<2-3 digits>-<3-4 digits>-<4-5 digits>\<close>, that is a plus sign and
  four groups of digits of these lengths, separated by hyphens. The email shape:
  \<^verbatim>\<open>local-part@domain.tld\<close>, the local part of alphanumerics and \<^verbatim>\<open>._%+-\<close>, a dotted
  domain, and a suffix of two or more letters. These two definitions follow the
  specification, not the source; they are what \<^verbatim>\<open>__validate_phone\<close> and
  \<^verbatim>\<open>__validate_email\<close> are compared with.
\<close>

fun split_on :: "char \<Rightarrow> string \<Rightarrow> string list" where
  "split_on sep [] = [[]]"
| "split_on sep (c # cs) =
     (if c = sep then [] # split_on sep cs
      else (case split_on sep cs of
              [] \<Rightarrow> [[c]]
            | w # ws \<Rightarrow> (c # w) # ws))"

definition is_digit :: "char \<Rightarrow> bool" where
  "is_digit c = (CHR ''0'' \<le> c \<and> c \<le> CHR ''9'')"

definition is_letter :: "char \<Rightarrow> bool" where
  "is_letter c = ((CHR ''a'' \<le> c \<and> c \<le> CHR ''z'') \<or> (CHR ''A'' \<le> c \<and> c \<le> CHR ''Z''))"

definition digit_group :: "nat \<Rightarrow> nat \<Rightarrow> string \<Rightarrow> bool" where
  "digit_group lo hi g = (lo \<le> length g \<and> length g \<le> hi \<and> list_all is_digit g)"

definition phone_shape :: "string \<Rightarrow> bool" where
  "phone_shape s =
     (case s of
        [] \<Rightarrow> False
      | c # rest \<Rightarrow>
          c = CHR ''+'' \<and>
          (case split_on CHR ''-'' rest of
             [g1, g2, g3, g4] \<Rightarrow>
               digit_group 1 3 g1 \<and> digit_group 2 3 g2 \<and>
               digit_group 3 4 g3 \<and> digit_group 4 5 g4
           | _ \<Rightarrow> False))"

definition local_char :: "char \<Rightarrow> bool" where
  "local_char c = (is_letter c \<or> is_digit c \<or> c \<in> set ''._%+-'')"

definition domain_char :: "char \<Rightarrow> bool" where
  "domain_char c = (is_letter c \<or> is_digit c \<or> c \<in> set ''.-'')"

definition email_shape :: "string \<Rightarrow> bool" where
  "email_shape s =
     (case split_on CHR ''@'' s of
        [local_part, host] \<Rightarrow>
          (let suffix = rev (takeWhile (\<lambda>c. c \<noteq> CHR ''.'') (rev host));
               dom = take (length host - length suffix - 1) host
           in local_part \<noteq> [] \<and> list_all local_char local_part \<and>
              dom \<noteq> [] \<and> list_all domain_char dom \<and>
              2 \<le> length suffix \<and> list_all is_letter suffix)
      | _ \<Rightarrow> False)"



section \<open>Example objects\<close>

text \<open>
  The account of the specification's scenario,
  \<^verbatim>\<open>SecureUser("alice", "alice@example.com", "+1-555-111-2222")\<close>, under a clock
  whose readings differ, and a small store holding an audit log of one entry and a
  permission list of two names.
\<close>

definition example_clock :: "nat \<Rightarrow> timestamp" where
  "example_clock k = ''2026-11-03T10:00:0'' @ str_nat k"

definition alice :: SecureUser where
  "alice =
     \<lparr>identity =
        \<lparr>username = ''alice'', email = Some ''alice@example.com'',
         phone_number = Some ''+1-555-111-2222'', verification_status = ''UNVERIFIED'',
         state_history =
           [\<lparr>se_timestamp = example_clock 0, se_action = ''EMAIL_CHANGED'',
             se_description = ''Email changed from None to alice@example.com'',
             se_status = ''UNVERIFIED''\<rparr>,
            \<lparr>se_timestamp = example_clock 1, se_action = ''PHONE_SET'',
             se_description = ''Phone number set to +1-555-111-2222'',
             se_status = ''UNVERIFIED''\<rparr>,
            \<lparr>se_timestamp = example_clock 2, se_action = ''INITIALIZED'',
             se_description = ''User identity created'', se_status = ''UNVERIFIED''\<rparr>]\<rparr>,
      access =
        \<lparr>permissions = [],
         permission_history =
           [\<lparr>pe_timestamp = example_clock 3, pe_action = ''INITIALIZED'',
             pe_description = ''Account access created'', pe_current_permissions = []\<rparr>]\<rparr>,
      audit_log =
        [\<lparr>ae_timestamp = example_clock 4, ae_action = ''USER_CREATED'',
          ae_description = ''SecureUser created for alice'', ae_success = True,
          ae_user = ''alice'', ae_verification_status = ''UNVERIFIED'', ae_details = None\<rparr>]\<rparr>"

definition example_store :: store where
  "example_store =
     [DictObj [(''action'', VStr ''USER_CREATED''), (''success'', VBool True)],
      ListObj [VRef 0],
      ListObj [VStr ''TRANSFER'', VStr ''WITHDRAW'']]"

definition example_object :: SecureUser_object where
  "example_object = \<lparr>obj_identity = identity alice, obj_permissions = 2, obj_audit_log = 1\<rparr>"

text \<open>The example account in the store.\<close>

definition alice_object :: SecureUser_object where
  "alice_object = fst (store_of alice)"

definition alice_store :: store where
  "alice_store = snd (store_of alice)"


section \<open>Properties of AccountAccess\<close>

lemma permissions_log_permission_change [simp]:
  "permissions (log_permission_change now action d a) = permissions a"
  by (simp add: log_permission_change_def)

lemma history_log_permission_change [simp]:
  "permission_history (log_permission_change now action d a) =
     permission_history a @
       [\<lparr>pe_timestamp = now, pe_action = action, pe_description = d,
         pe_current_permissions = permissions a\<rparr>]"
  by (simp add: log_permission_change_def)

text \<open>
  C10. \<^verbatim>\<open>clear_all_permissions\<close> empties the permission list in every state, returns
  the number of permissions held just before the call, appends exactly one history entry,
  whose action is \<^verbatim>\<open>CLEAR_ALL\<close>, and afterwards \<^verbatim>\<open>has_permission(p)\<close> is False for
  every \<open>p\<close>.
\<close>

theorem clear_all_permissions_spec:
  "permissions (snd (clear_all_permissions now a)) = []
   \<and> fst (clear_all_permissions now a) = length (permissions a)
   \<and> permission_history (snd (clear_all_permissions now a)) =
       permission_history a @
         [\<lparr>pe_timestamp = now, pe_action = ''CLEAR_ALL'',
           pe_description = ''Cleared '' @ str_nat (length (permissions a)) @ '' permissions'',
           pe_current_permissions = []\<rparr>]
   \<and> has_permission (snd (clear_all_permissions now a)) p = False"
  by (simp add: clear_all_permissions_def has_permission_def Let_def)

subsection \<open>The invariant of the permission list\<close>

lemma granted_ok_init: "granted_ok (AccountAccess_init now)"
  by (simp add: granted_ok_def AccountAccess_init_def)

lemma granted_ok_add:
  assumes "granted_ok a"
  shows "granted_ok (snd (add_permission now p v a))"
  using assms by (auto simp: granted_ok_def add_permission_def Let_def)

lemma granted_ok_remove:
  assumes "granted_ok a"
  shows "granted_ok (snd (remove_permission now p a))"
  using assms
  by (auto simp: granted_ok_def remove_permission_def Let_def dest: notin_set_remove1)

lemma granted_ok_clear: "granted_ok (snd (clear_all_permissions now a))"
  by (simp add: granted_ok_def clear_all_permissions_def Let_def)

lemma granted_ok_step: "granted_ok a \<Longrightarrow> granted_ok (access_step a c)"
  by (cases c) (simp_all add: granted_ok_add granted_ok_remove granted_ok_clear)

lemma granted_ok_foldl: "granted_ok a \<Longrightarrow> granted_ok (foldl access_step a calls)"
  by (induction calls arbitrary: a) (simp_all add: granted_ok_step)

lemma granted_ok_run: "granted_ok (access_run t0 calls)"
  unfolding access_run_def by (rule granted_ok_foldl [OF granted_ok_init])

text \<open>
  C5. Every element of the permission list is in \<^verbatim>\<open>ALLOWED_PERMISSIONS\<close> and the list
  has no duplicates: this holds of a new \<^verbatim>\<open>AccountAccess\<close>, each of
  \<^verbatim>\<open>add_permission\<close>, \<^verbatim>\<open>remove_permission\<close> and \<^verbatim>\<open>clear_all_permissions\<close> preserves it,
  and so it holds after any sequence of these calls on a new object.
\<close>

theorem granted_invariant:
  "granted_ok (AccountAccess_init t0)
   \<and> (granted_ok a \<longrightarrow>
        granted_ok (snd (add_permission now p v a))
        \<and> granted_ok (snd (remove_permission now p a))
        \<and> granted_ok (snd (clear_all_permissions now a)))
   \<and> set (permissions (access_run t0 calls)) \<subseteq> ALLOWED_PERMISSIONS
   \<and> distinct (permissions (access_run t0 calls))"
proof -
  have "granted_ok (access_run t0 calls)"
    by (rule granted_ok_run)
  then have "set (permissions (access_run t0 calls)) \<subseteq> ALLOWED_PERMISSIONS"
    and "distinct (permissions (access_run t0 calls))"
    by (simp_all add: granted_ok_def)
  then show ?thesis
    by (simp add: granted_ok_init granted_ok_add granted_ok_remove granted_ok_clear)
qed

theorem granted_invariant_witness:
  "granted_ok (AccountAccess_init ''t0'')
   \<and> granted_ok (snd (add_permission ''t1'' ''DEPOSIT'' False (AccountAccess_init ''t0'')))
   \<and> granted_ok (snd (remove_permission ''t1'' ''DEPOSIT'' (AccountAccess_init ''t0'')))
   \<and> granted_ok (snd (clear_all_permissions ''t1'' (AccountAccess_init ''t0'')))
   \<and> distinct (permissions (access_run ''t0''
        [AddPermission ''t1'' ''DEPOSIT'' False, AddPermission ''t2'' ''DEPOSIT'' False,
         AddPermission ''t3'' ''ROOT'' True, RemovePermission ''t4'' ''DEPOSIT'']))"
  using granted_invariant [of "''t0''" "AccountAccess_init ''t0''" "''t1''" "''DEPOSIT''" False
      "[AddPermission ''t1'' ''DEPOSIT'' False, AddPermission ''t2'' ''DEPOSIT'' False,
        AddPermission ''t3'' ''ROOT'' True, RemovePermission ''t4'' ''DEPOSIT'']"]
  by simp

text \<open>
  C9. \<^verbatim>\<open>add_permission\<close> checks for an unknown permission first, then for a duplicate,
  then for the verification requirement. In every state a name outside
  \<^verbatim>\<open>ALLOWED_PERMISSIONS\<close> gets the invalid-permission message, and an allowed name that
  is in the permission list gets \<^verbatim>\<open>(False, "Permission already granted: p")\<close> whatever
  \<^verbatim>\<open>is_verified\<close> is and whether or not the name is restricted. In a state reached by
  calls on a new \<^verbatim>\<open>AccountAccess\<close> every name in the list is allowed, so there
  every \<open>p\<close> in the list gets the duplicate message, and the list stays as it is.
\<close>

theorem duplicate_before_verification:
  "(p \<notin> ALLOWED_PERMISSIONS \<longrightarrow>
      fst (add_permission now p v a) = (False, ''Invalid permission: '' @ p))
   \<and> (p \<in> ALLOWED_PERMISSIONS \<and> p \<in> set (permissions a) \<longrightarrow>
        fst (add_permission now p v a) = (False, ''Permission already granted: '' @ p))
   \<and> (p \<in> set (permissions (access_run t0 calls)) \<longrightarrow>
        fst (add_permission now p v (access_run t0 calls)) =
          (False, ''Permission already granted: '' @ p)
        \<and> permissions (snd (add_permission now p v (access_run t0 calls))) =
            permissions (access_run t0 calls))"
proof -
  have "p \<in> ALLOWED_PERMISSIONS" if "p \<in> set (permissions (access_run t0 calls))"
    using granted_ok_run [of t0 calls] that by (auto simp: granted_ok_def)
  then show ?thesis
    by (auto simp: add_permission_def Let_def)
qed

lemma run_transfer_granted:
  "permissions (access_run ''t0'' [AddPermission ''t1'' ''TRANSFER'' True]) = [''TRANSFER'']"
  by (simp add: access_run_def AccountAccess_init_def add_permission_def Let_def
      ALLOWED_PERMISSIONS_def RESTRICTED_PERMISSIONS_def)

theorem duplicate_before_verification_witness:
  "''ROOT'' \<notin> ALLOWED_PERMISSIONS
   \<and> fst (add_permission ''t2'' ''ROOT'' True
            \<lparr>permissions = [''ROOT'', ''TRANSFER''], permission_history = []\<rparr>) =
       (False, ''Invalid permission: ROOT'')
   \<and> ''TRANSFER'' \<in> ALLOWED_PERMISSIONS
   \<and> ''TRANSFER'' \<in> RESTRICTED_PERMISSIONS
   \<and> ''TRANSFER'' \<in> set (permissions \<lparr>permissions = [''ROOT'', ''TRANSFER''],
                                      permission_history = []\<rparr>)
   \<and> fst (add_permission ''t2'' ''TRANSFER'' False
            \<lparr>permissions = [''ROOT'', ''TRANSFER''], permission_history = []\<rparr>) =
       (False, ''Permission already granted: TRANSFER'')
   \<and> ''TRANSFER'' \<in> set (permissions (access_run ''t0'' [AddPermission ''t1'' ''TRANSFER'' True]))
   \<and> fst (add_permission ''t2'' ''TRANSFER'' False
            (access_run ''t0'' [AddPermission ''t1'' ''TRANSFER'' True])) =
       (False, ''Permission already granted: TRANSFER'')"
  using duplicate_before_verification [of "''ROOT''" "''t2''" True
      "\<lparr>permissions = [''ROOT'', ''TRANSFER''], permission_history = []\<rparr>" "''t0''" "[]"]
    duplicate_before_verification [of "''TRANSFER''" "''t2''" False
      "\<lparr>permissions = [''ROOT'', ''TRANSFER''], permission_history = []\<rparr>" "''t0''"
      "[AddPermission ''t1'' ''TRANSFER'' True]"]
  by (simp add: run_transfer_granted RESTRICTED_PERMISSIONS_def ALLOWED_PERMISSIONS_def)


section \<open>Properties of UserIdentity\<close>

lemma status_log_state_change [simp]:
  "verification_status (log_state_change now action d u) = verification_status u"
  by (simp add: log_state_change_def)

lemma email_log_state_change [simp]:
  "email (log_state_change now action d u) = email u"
  by (simp add: log_state_change_def)

lemma phone_log_state_change [simp]:
  "phone_number (log_state_change now action d u) = phone_number u"
  by (simp add: log_state_change_def)

lemma username_log_state_change [simp]:
  "username (log_state_change now action d u) = username u"
  by (simp add: log_state_change_def)

lemma identity_step_rank:
  "status_rank (verification_status u) \<le> status_rank (verification_status (identity_step u c))
   \<and> status_rank (verification_status (identity_step u c)) \<le>
       Suc (status_rank (verification_status u))"
  by (cases c) (simp_all add: request_verification_def verify_def status_rank_def)

lemma identity_run_rank:
  "status_rank (verification_status u) \<le>
     status_rank (verification_status (foldl identity_step u calls))"
proof (induction calls arbitrary: u)
  case Nil
  show ?case by simp
next
  case (Cons c calls)
  have "status_rank (verification_status u) \<le>
          status_rank (verification_status (identity_step u c))"
    using identity_step_rank [of u c] by simp
  also have "\<dots> \<le> status_rank (verification_status (foldl identity_step (identity_step u c) calls))"
    by (rule Cons.IH)
  finally show ?case by simp
qed

text \<open>
  C2. The verification state moves only forward along \<^verbatim>\<open>UNVERIFIED\<close>, \<^verbatim>\<open>PENDING\<close>,
  \<^verbatim>\<open>VERIFIED\<close>: \<^verbatim>\<open>request_verification\<close> returns True exactly when the state is
  \<^verbatim>\<open>UNVERIFIED\<close>, and then the state becomes \<^verbatim>\<open>PENDING\<close>; \<^verbatim>\<open>verify\<close> returns True
  exactly when the state is \<^verbatim>\<open>PENDING\<close>, and then the state becomes \<^verbatim>\<open>VERIFIED\<close>; any
  other call returns False and leaves the state as it is. Along any sequence of calls
  the state never moves back, and one call moves it by at most one position.
\<close>

theorem verification_state_machine:
  "fst (request_verification now u) = (verification_status u = ''UNVERIFIED'')
   \<and> verification_status (snd (request_verification now u)) =
       (if verification_status u = ''UNVERIFIED'' then ''PENDING'' else verification_status u)
   \<and> fst (verify now u) = (verification_status u = ''PENDING'')
   \<and> verification_status (snd (verify now u)) =
       (if verification_status u = ''PENDING'' then ''VERIFIED'' else verification_status u)
   \<and> status_rank (verification_status (identity_step u c)) \<le>
       Suc (status_rank (verification_status u))
   \<and> status_rank (verification_status u) \<le>
       status_rank (verification_status (foldl identity_step u calls))"
  using identity_step_rank [of u c] identity_run_rank [of u calls]
  by (simp add: request_verification_def verify_def)



section \<open>The validators against the shapes\<close>

subsection \<open>Matching by derivatives decides membership\<close>

lemma nullable_lang: "nullable r \<longleftrightarrow> [] \<in> lang r"
  by (induction r) (auto intro: star_empty)

lemma star_cons_split:
  assumes "w \<in> star A" and "w = c # x"
  shows "\<exists>u v. x = u @ v \<and> c # u \<in> A \<and> v \<in> star A"
  using assms
proof (induction rule: star.induct)
  case star_empty
  then show ?case by simp
next
  case (star_more u v)
  show ?case
  proof (cases u)
    case Nil
    with star_more show ?thesis by simp
  next
    case (Cons d u')
    with star_more.prems star_more.hyps(1,2) show ?thesis by auto
  qed
qed

lemma star_cons_iff:
  "c # x \<in> star A \<longleftrightarrow> (\<exists>u v. x = u @ v \<and> c # u \<in> A \<and> v \<in> star A)"
proof
  assume "c # x \<in> star A"
  then show "\<exists>u v. x = u @ v \<and> c # u \<in> A \<and> v \<in> star A"
    by (rule star_cons_split) simp
next
  assume "\<exists>u v. x = u @ v \<and> c # u \<in> A \<and> v \<in> star A"
  then obtain u v where "x = u @ v" "c # u \<in> A" "v \<in> star A" by blast
  then show "c # x \<in> star A"
    using star_more [of "c # u" A v] by simp
qed

lemma lang_Cat_cons:
  "c # w \<in> lang (Cat r s) \<longleftrightarrow>
     (\<exists>u v. w = u @ v \<and> c # u \<in> lang r \<and> v \<in> lang s) \<or> ([] \<in> lang r \<and> c # w \<in> lang s)"
proof
  assume "c # w \<in> lang (Cat r s)"
  then obtain u v where uv: "c # w = u @ v" "u \<in> lang r" "v \<in> lang s"
    by auto
  show "(\<exists>u v. w = u @ v \<and> c # u \<in> lang r \<and> v \<in> lang s) \<or> ([] \<in> lang r \<and> c # w \<in> lang s)"
  proof (cases u)
    case Nil
    with uv show ?thesis by simp
  next
    case (Cons d u')
    with uv have "w = u' @ v" "c # u' \<in> lang r" by simp_all
    with uv(3) show ?thesis by blast
  qed
next
  assume "(\<exists>u v. w = u @ v \<and> c # u \<in> lang r \<and> v \<in> lang s) \<or> ([] \<in> lang r \<and> c # w \<in> lang s)"
  then show "c # w \<in> lang (Cat r s)"
  proof
    assume "\<exists>u v. w = u @ v \<and> c # u \<in> lang r \<and> v \<in> lang s"
    then obtain u v where "w = u @ v" "c # u \<in> lang r" "v \<in> lang s" by blast
    then have "c # w = (c # u) @ v \<and> c # u \<in> lang r \<and> v \<in> lang s" by simp
    then show ?thesis unfolding lang.simps by blast
  next
    assume "[] \<in> lang r \<and> c # w \<in> lang s"
    then have "c # w = [] @ (c # w) \<and> [] \<in> lang r \<and> c # w \<in> lang s" by simp
    then show ?thesis unfolding lang.simps by blast
  qed
qed

lemma lang_deriv: "w \<in> lang (deriv c r) \<longleftrightarrow> c # w \<in> lang r"
proof (induction r arbitrary: w)
  case (Cat r s)
  have "w \<in> lang (deriv c (Cat r s)) \<longleftrightarrow>
          (\<exists>u v. w = u @ v \<and> u \<in> lang (deriv c r) \<and> v \<in> lang s)
          \<or> (nullable r \<and> w \<in> lang (deriv c s))"
    by auto
  then show ?case
    by (simp add: Cat.IH lang_Cat_cons nullable_lang del: lang.simps)
next
  case (Star r)
  then show ?case
    by (auto simp: star_cons_iff)
qed auto

lemma fullmatch_lang: "fullmatch r w \<longleftrightarrow> w \<in> lang r"
  by (induction w arbitrary: r) (simp_all add: nullable_lang lang_deriv)

subsection \<open>The strings of the bounded and unbounded repetitions of a class\<close>

lemma in_class_single [simp]: "in_class c [(d, d)] \<longleftrightarrow> c = d"
  by auto

lemma lang_Lit [simp]: "lang (Lit c) = {[c]}"
  by (auto simp: Lit_def)

lemma lang_Cat_Class:
  "w \<in> lang (Cat (Class rs) r) \<longleftrightarrow> (\<exists>c v. w = c # v \<and> in_class c rs \<and> v \<in> lang r)"
proof
  assume "w \<in> lang (Cat (Class rs) r)"
  then show "\<exists>c v. w = c # v \<and> in_class c rs \<and> v \<in> lang r"
    by auto
next
  assume "\<exists>c v. w = c # v \<and> in_class c rs \<and> v \<in> lang r"
  then obtain c v where "w = [c] @ v" "[c] \<in> lang (Class rs)" "v \<in> lang r"
    by auto
  then show "w \<in> lang (Cat (Class rs) r)"
    unfolding lang.simps(5) by blast
qed

lemma lang_Exactly_Class:
  "w \<in> lang (Exactly n (Class rs)) \<longleftrightarrow> length w = n \<and> (\<forall>c\<in>set w. in_class c rs)"
proof (induction n arbitrary: w)
  case 0
  show ?case by auto
next
  case (Suc n)
  show ?case
    by (cases w) (auto simp: Suc.IH lang_Cat_Class simp del: lang.simps)
qed

lemma lang_AtMost_Class:
  "w \<in> lang (AtMost n (Class rs)) \<longleftrightarrow> length w \<le> n \<and> (\<forall>c\<in>set w. in_class c rs)"
proof (induction n arbitrary: w)
  case 0
  show ?case by auto
next
  case (Suc n)
  have "w \<in> lang (AtMost (Suc n) (Class rs)) \<longleftrightarrow>
          w = [] \<or> w \<in> lang (Cat (Class rs) (AtMost n (Class rs)))"
    by simp
  then show ?case
    by (cases w) (auto simp: Suc.IH lang_Cat_Class simp del: lang.simps)
qed

lemma star_Class:
  "w \<in> star {[c] | c. in_class c rs} \<longleftrightarrow> (\<forall>c\<in>set w. in_class c rs)"
proof
  assume "w \<in> star {[c] | c. in_class c rs}"
  then show "\<forall>c\<in>set w. in_class c rs"
    by (induction rule: star.induct) auto
next
  assume "\<forall>c\<in>set w. in_class c rs"
  then show "w \<in> star {[c] | c. in_class c rs}"
  proof (induction w)
    case Nil
    show ?case by (rule star_empty)
  next
    case (Cons c w)
    then have "[c] \<in> {[c] | c. in_class c rs}" and "w \<in> star {[c] | c. in_class c rs}"
      by simp_all
    from star_more [OF this] show ?case by simp
  qed
qed

lemma lang_Between_Class:
  assumes "m \<le> n"
  shows "w \<in> lang (Between m n (Class rs)) \<longleftrightarrow>
           m \<le> length w \<and> length w \<le> n \<and> (\<forall>c\<in>set w. in_class c rs)"
proof
  assume "w \<in> lang (Between m n (Class rs))"
  then show "m \<le> length w \<and> length w \<le> n \<and> (\<forall>c\<in>set w. in_class c rs)"
    using assms by (auto simp: Between_def lang_Exactly_Class lang_AtMost_Class)
next
  assume a: "m \<le> length w \<and> length w \<le> n \<and> (\<forall>c\<in>set w. in_class c rs)"
  then have "take m w \<in> lang (Exactly m (Class rs))"
    by (auto simp: lang_Exactly_Class dest: in_set_takeD)
  moreover from a have "drop m w \<in> lang (AtMost (n - m) (Class rs))"
    by (auto simp: lang_AtMost_Class dest: in_set_dropD)
  moreover have "w = take m w @ drop m w"
    by simp
  ultimately show "w \<in> lang (Between m n (Class rs))"
    unfolding Between_def lang.simps by blast
qed

lemma lang_Star_Class:
  "w \<in> lang (Star (Class rs)) \<longleftrightarrow> (\<forall>c\<in>set w. in_class c rs)"
  by (simp add: star_Class)

lemma lang_Plus_Class:
  "w \<in> lang (Plus (Class rs)) \<longleftrightarrow> w \<noteq> [] \<and> (\<forall>c\<in>set w. in_class c rs)"
  unfolding Plus_def
  by (cases w) (auto simp: lang_Cat_Class lang_Star_Class simp del: lang.simps)

lemma lang_AtLeast_Class:
  "w \<in> lang (AtLeast m (Class rs)) \<longleftrightarrow> m \<le> length w \<and> (\<forall>c\<in>set w. in_class c rs)"
proof
  assume "w \<in> lang (AtLeast m (Class rs))"
  then show "m \<le> length w \<and> (\<forall>c\<in>set w. in_class c rs)"
    by (auto simp: AtLeast_def lang_Exactly_Class star_Class)
next
  assume a: "m \<le> length w \<and> (\<forall>c\<in>set w. in_class c rs)"
  then have "take m w \<in> lang (Exactly m (Class rs))"
    by (auto simp: lang_Exactly_Class dest: in_set_takeD)
  moreover from a have "drop m w \<in> star (lang (Class rs))"
    by (auto simp: star_Class dest: in_set_dropD)
  moreover have "w = take m w @ drop m w"
    by simp
  ultimately show "w \<in> lang (AtLeast m (Class rs))"
    unfolding AtLeast_def lang.simps by blast
qed

lemma lang_Cat_Lit:
  "w \<in> lang (Cat (Lit c) r) \<longleftrightarrow> (\<exists>v. w = c # v \<and> v \<in> lang r)"
  by auto

lemma digit_group_lang:
  assumes "lo \<le> hi"
  shows "g \<in> lang (Between lo hi digit) \<longleftrightarrow> digit_group lo hi g"
  using assms
  by (auto simp: digit_def lang_Between_Class digit_group_def is_digit_def list_all_iff)

text \<open>The strings of the phone pattern.\<close>

lemma lang_phone_pattern:
  "w \<in> lang phone_pattern \<longleftrightarrow>
     (\<exists>g1 g2 g3 g4. w = CHR ''+'' # g1 @ CHR ''-'' # g2 @ CHR ''-'' # g3 @ CHR ''-'' # g4
        \<and> digit_group 1 3 g1 \<and> digit_group 2 3 g2 \<and> digit_group 3 4 g3 \<and> digit_group 4 5 g4)"
proof -
  have cat: "x \<in> lang (Cat (Between lo hi digit) (Cat (Lit CHR ''-'') r)) \<longleftrightarrow>
               (\<exists>g v. x = g @ CHR ''-'' # v \<and> digit_group lo hi g \<and> v \<in> lang r)"
    if "lo \<le> hi" for x lo hi r
    using digit_group_lang [OF that] by auto
  show ?thesis
    unfolding phone_pattern_def lang_Cat_Lit
    by (simp add: cat digit_group_lang del: lang.simps) blast
qed

subsection \<open>The phone pattern and the phone shape\<close>

lemma split_on_not_Nil [simp]: "split_on sep s \<noteq> []"
  by (induction s) (auto split: list.splits)

lemma split_on_no_sep: "sep \<notin> set w \<Longrightarrow> split_on sep w = [w]"
  by (induction w) auto

lemma split_on_append:
  "sep \<notin> set w \<Longrightarrow> split_on sep (w @ sep # rest) = w # split_on sep rest"
  by (induction w) (auto split: list.splits)

lemma split_on_Cons_cases:
  assumes "split_on sep s = w # ws"
  shows "sep \<notin> set w \<and> (if ws = [] then s = w
                          else \<exists>rest. s = w @ sep # rest \<and> split_on sep rest = ws)"
  using assms
proof (induction s arbitrary: w ws)
  case Nil
  then show ?case by simp
next
  case (Cons c s)
  show ?case
  proof (cases "c = sep")
    case True
    with Cons.prems show ?thesis by auto
  next
    case False
    with Cons.prems obtain w' where w': "split_on sep s = w' # ws" "w = c # w'"
      by (auto split: list.splits)
    from Cons.IH [OF w'(1)] w'(2) False show ?thesis
      by auto
  qed
qed

lemma split_on_four:
  "split_on sep s = [g1, g2, g3, g4] \<longleftrightarrow>
     s = g1 @ sep # g2 @ sep # g3 @ sep # g4
     \<and> sep \<notin> set g1 \<and> sep \<notin> set g2 \<and> sep \<notin> set g3 \<and> sep \<notin> set g4"
proof
  assume a: "split_on sep s = [g1, g2, g3, g4]"
  from split_on_Cons_cases [OF a] obtain r1 where
    r1: "sep \<notin> set g1" "s = g1 @ sep # r1" "split_on sep r1 = [g2, g3, g4]"
    by auto
  from split_on_Cons_cases [OF r1(3)] obtain r2 where
    r2: "sep \<notin> set g2" "r1 = g2 @ sep # r2" "split_on sep r2 = [g3, g4]"
    by auto
  from split_on_Cons_cases [OF r2(3)] obtain r3 where
    r3: "sep \<notin> set g3" "r2 = g3 @ sep # r3" "split_on sep r3 = [g4]"
    by auto
  from split_on_Cons_cases [OF r3(3)] have "sep \<notin> set g4" "r3 = g4"
    by auto
  with r1 r2 r3 show "s = g1 @ sep # g2 @ sep # g3 @ sep # g4
     \<and> sep \<notin> set g1 \<and> sep \<notin> set g2 \<and> sep \<notin> set g3 \<and> sep \<notin> set g4"
    by simp
next
  assume "s = g1 @ sep # g2 @ sep # g3 @ sep # g4
     \<and> sep \<notin> set g1 \<and> sep \<notin> set g2 \<and> sep \<notin> set g3 \<and> sep \<notin> set g4"
  then show "split_on sep s = [g1, g2, g3, g4]"
    by (simp add: split_on_append split_on_no_sep)
qed

lemma digit_group_no_hyphen: "digit_group lo hi g \<Longrightarrow> CHR ''-'' \<notin> set g"
  by (auto simp: digit_group_def is_digit_def list_all_iff)

lemma phone_shape_iff:
  "phone_shape s \<longleftrightarrow>
     (\<exists>g1 g2 g3 g4. s = CHR ''+'' # g1 @ CHR ''-'' # g2 @ CHR ''-'' # g3 @ CHR ''-'' # g4
        \<and> digit_group 1 3 g1 \<and> digit_group 2 3 g2 \<and> digit_group 3 4 g3 \<and> digit_group 4 5 g4)"
proof
  assume "phone_shape s"
  then obtain rest g1 g2 g3 g4 where
    "s = CHR ''+'' # rest" "split_on CHR ''-'' rest = [g1, g2, g3, g4]"
    "digit_group 1 3 g1" "digit_group 2 3 g2" "digit_group 3 4 g3" "digit_group 4 5 g4"
    by (auto simp: phone_shape_def split: list.splits)
  then show "\<exists>g1 g2 g3 g4. s = CHR ''+'' # g1 @ CHR ''-'' # g2 @ CHR ''-'' # g3 @ CHR ''-'' # g4
        \<and> digit_group 1 3 g1 \<and> digit_group 2 3 g2 \<and> digit_group 3 4 g3 \<and> digit_group 4 5 g4"
    by (auto simp: split_on_four)
next
  assume "\<exists>g1 g2 g3 g4. s = CHR ''+'' # g1 @ CHR ''-'' # g2 @ CHR ''-'' # g3 @ CHR ''-'' # g4
        \<and> digit_group 1 3 g1 \<and> digit_group 2 3 g2 \<and> digit_group 3 4 g3 \<and> digit_group 4 5 g4"
  then obtain g1 g2 g3 g4 where
    s: "s = CHR ''+'' # g1 @ CHR ''-'' # g2 @ CHR ''-'' # g3 @ CHR ''-'' # g4"
    and g: "digit_group 1 3 g1" "digit_group 2 3 g2" "digit_group 3 4 g3" "digit_group 4 5 g4"
    by blast
  have "split_on CHR ''-'' (g1 @ CHR ''-'' # g2 @ CHR ''-'' # g3 @ CHR ''-'' # g4) =
          [g1, g2, g3, g4]"
    using g by (simp add: split_on_four digit_group_no_hyphen)
  with s g show "phone_shape s"
    by (simp add: phone_shape_def)
qed

lemma fullmatch_phone_pattern: "fullmatch phone_pattern s \<longleftrightarrow> phone_shape s"
  by (simp only: fullmatch_lang lang_phone_pattern phone_shape_iff)

text \<open>
  \<^verbatim>\<open>__validate_phone\<close> accepts exactly the strings of the phone shape and those
  strings followed by one newline.
\<close>

lemma validate_phone_iff:
  "validate_phone s \<longleftrightarrow> phone_shape s \<or> (\<exists>w. s = w @ [CHR 0x0A] \<and> phone_shape w)"
proof -
  have "(s \<noteq> [] \<and> last s = CHR 0x0A \<and> phone_shape (butlast s)) \<longleftrightarrow>
          (\<exists>w. s = w @ [CHR 0x0A] \<and> phone_shape w)"
    by (cases s rule: rev_cases) auto
  then show ?thesis
    by (simp add: validate_phone_def re_match_anchored_def fullmatch_phone_pattern)
qed

subsection \<open>The email pattern and the email shape\<close>

lemma split_on_two:
  "split_on sep s = [a, b] \<longleftrightarrow> s = a @ sep # b \<and> sep \<notin> set a \<and> sep \<notin> set b"
proof
  assume ab: "split_on sep s = [a, b]"
  from split_on_Cons_cases [OF ab] obtain r1 where
    r1: "sep \<notin> set a" "s = a @ sep # r1" "split_on sep r1 = [b]"
    by auto
  from split_on_Cons_cases [OF r1(3)] have "sep \<notin> set b" "r1 = b"
    by auto
  with r1 show "s = a @ sep # b \<and> sep \<notin> set a \<and> sep \<notin> set b"
    by simp
next
  assume "s = a @ sep # b \<and> sep \<notin> set a \<and> sep \<notin> set b"
  then show "split_on sep s = [a, b]"
    by (simp add: split_on_append split_on_no_sep)
qed

text \<open>The part of a host name after its last dot, and the part before that dot.\<close>

lemma takeWhile_to_dot:
  assumes "CHR ''.'' \<notin> set t"
  shows "takeWhile (\<lambda>c. c \<noteq> CHR ''.'') (rev t @ CHR ''.'' # r) = rev t"
proof -
  have "x \<noteq> CHR ''.''" if "x \<in> set (rev t)" for x
    using that assms by auto
  then have "takeWhile (\<lambda>c. c \<noteq> CHR ''.'') (rev t @ CHR ''.'' # r) =
               rev t @ takeWhile (\<lambda>c. c \<noteq> CHR ''.'') (CHR ''.'' # r)"
    by (rule takeWhile_append2)
  then show ?thesis by simp
qed

lemma dotted_of_suffix:
  assumes "take (length host - length (takeWhile (\<lambda>c. c \<noteq> CHR ''.'') (rev host)) - 1) host \<noteq> []"
  shows "\<exists>d. host = d @ CHR ''.'' # rev (takeWhile (\<lambda>c. c \<noteq> CHR ''.'') (rev host))"
proof -
  let ?P = "\<lambda>c. c \<noteq> CHR ''.''"
  have split: "rev host = takeWhile ?P (rev host) @ dropWhile ?P (rev host)"
    by simp
  show ?thesis
  proof (cases "dropWhile ?P (rev host)")
    case Nil
    with split have "length (takeWhile ?P (rev host)) = length host"
      by (metis append_Nil2 length_rev)
    with assms show ?thesis by simp
  next
    case (Cons c rest)
    then have "\<not> ?P c"
      using hd_dropWhile [of ?P "rev host"] by (metis list.sel(1) list.distinct(1))
    then have "c = CHR ''.''" by simp
    with split Cons have "rev host = takeWhile ?P (rev host) @ CHR ''.'' # rest"
      by simp
    then have "rev (rev host) = rev (takeWhile ?P (rev host) @ CHR ''.'' # rest)"
      by simp
    then have "host = rev rest @ CHR ''.'' # rev (takeWhile ?P (rev host))"
      by simp
    then show ?thesis by blast
  qed
qed

lemma in_class_local:
  "in_class c [(CHR ''a'', CHR ''z''), (CHR ''A'', CHR ''Z''), (CHR ''0'', CHR ''9''),
               (CHR ''.'', CHR ''.''), (CHR ''_'', CHR ''_''), (CHR ''%'', CHR ''%''),
               (CHR ''+'', CHR ''+''), (CHR ''-'', CHR ''-'')] \<longleftrightarrow> local_char c"
  by (auto simp: local_char_def is_letter_def is_digit_def)

lemma in_class_domain:
  "in_class c [(CHR ''a'', CHR ''z''), (CHR ''A'', CHR ''Z''), (CHR ''0'', CHR ''9''),
               (CHR ''.'', CHR ''.''), (CHR ''-'', CHR ''-'')] \<longleftrightarrow> domain_char c"
  by (auto simp: domain_char_def is_letter_def is_digit_def)

lemma in_class_letter:
  "in_class c [(CHR ''a'', CHR ''z''), (CHR ''A'', CHR ''Z'')] \<longleftrightarrow> is_letter c"
  by (auto simp: is_letter_def)

lemma lang_Cat_Plus_Lit:
  "w \<in> lang (Cat (Plus (Class rs)) (Cat (Lit c) r)) \<longleftrightarrow>
     (\<exists>u v. w = u @ c # v \<and> u \<noteq> [] \<and> (\<forall>x\<in>set u. in_class x rs) \<and> v \<in> lang r)"
proof -
  have "w \<in> lang (Cat (Plus (Class rs)) (Cat (Lit c) r)) \<longleftrightarrow>
          (\<exists>u v. w = u @ v \<and> u \<in> lang (Plus (Class rs)) \<and> v \<in> lang (Cat (Lit c) r))"
    by auto
  then show ?thesis
    by (simp add: lang_Plus_Class lang_Cat_Lit del: lang.simps) blast
qed

lemma lang_email_pattern:
  "w \<in> lang email_pattern \<longleftrightarrow>
     (\<exists>l d t. w = l @ CHR ''@'' # d @ CHR ''.'' # t
        \<and> l \<noteq> [] \<and> list_all local_char l
        \<and> d \<noteq> [] \<and> list_all domain_char d
        \<and> 2 \<le> length t \<and> list_all is_letter t)"
  unfolding email_pattern_def lang_Cat_Plus_Lit lang_AtLeast_Class
    in_class_local in_class_domain in_class_letter list_all_iff
  by blast

lemma no_at_sign:
  "list_all local_char l \<Longrightarrow> CHR ''@'' \<notin> set l"
  "list_all domain_char d \<Longrightarrow> CHR ''@'' \<notin> set d"
  "list_all is_letter t \<Longrightarrow> CHR ''@'' \<notin> set t"
  by (auto simp: list_all_iff local_char_def domain_char_def is_letter_def is_digit_def)

lemma letters_no_dot: "list_all is_letter t \<Longrightarrow> CHR ''.'' \<notin> set t"
  by (auto simp: list_all_iff is_letter_def)

lemma email_shape_iff:
  "email_shape s \<longleftrightarrow>
     (\<exists>l d t. s = l @ CHR ''@'' # d @ CHR ''.'' # t
        \<and> l \<noteq> [] \<and> list_all local_char l
        \<and> d \<noteq> [] \<and> list_all domain_char d
        \<and> 2 \<le> length t \<and> list_all is_letter t)"
proof
  assume "email_shape s"
  then obtain l host where lh: "split_on CHR ''@'' s = [l, host]"
    and l: "l \<noteq> []" "list_all local_char l"
    and dom: "take (length host - length (takeWhile (\<lambda>c. c \<noteq> CHR ''.'') (rev host)) - 1) host \<noteq> []"
      "list_all domain_char
         (take (length host - length (takeWhile (\<lambda>c. c \<noteq> CHR ''.'') (rev host)) - 1) host)"
    and suf: "2 \<le> length (takeWhile (\<lambda>c. c \<noteq> CHR ''.'') (rev host))"
      "list_all is_letter (rev (takeWhile (\<lambda>c. c \<noteq> CHR ''.'') (rev host)))"
    by (auto simp: email_shape_def Let_def split: list.splits)
  let ?t = "rev (takeWhile (\<lambda>c. c \<noteq> CHR ''.'') (rev host))"
  from dotted_of_suffix [OF dom(1)] obtain d where host: "host = d @ CHR ''.'' # ?t"
    by blast
  then have "length host = length d + 1 + length ?t"
    by (metis length_append length_Cons Suc_eq_plus1 add.assoc add.commute)
  then have "take (length host - length (takeWhile (\<lambda>c. c \<noteq> CHR ''.'') (rev host)) - 1) host =
               take (length d) host"
    by simp
  also have "\<dots> = d"
    by (subst host) simp
  finally have d: "d \<noteq> []" "list_all domain_char d"
    using dom by simp_all
  from lh have "s = l @ CHR ''@'' # host"
    by (simp add: split_on_two)
  with host have "s = l @ CHR ''@'' # d @ CHR ''.'' # ?t"
    by simp
  with l d suf show "\<exists>l d t. s = l @ CHR ''@'' # d @ CHR ''.'' # t
        \<and> l \<noteq> [] \<and> list_all local_char l
        \<and> d \<noteq> [] \<and> list_all domain_char d
        \<and> 2 \<le> length t \<and> list_all is_letter t"
    by (metis length_rev)
next
  assume "\<exists>l d t. s = l @ CHR ''@'' # d @ CHR ''.'' # t
        \<and> l \<noteq> [] \<and> list_all local_char l
        \<and> d \<noteq> [] \<and> list_all domain_char d
        \<and> 2 \<le> length t \<and> list_all is_letter t"
  then obtain l d t where s: "s = l @ CHR ''@'' # d @ CHR ''.'' # t"
    and l: "l \<noteq> []" "list_all local_char l"
    and d: "d \<noteq> []" "list_all domain_char d"
    and t: "2 \<le> length t" "list_all is_letter t"
    by blast
  let ?host = "d @ CHR ''.'' # t"
  have "CHR ''@'' \<notin> set ?host"
    using no_at_sign(2) [OF d(2)] no_at_sign(3) [OF t(2)] by simp
  then have sp: "split_on CHR ''@'' s = [l, ?host]"
    using s no_at_sign(1) [OF l(2)] by (simp add: split_on_two)
  have tw: "takeWhile (\<lambda>c. c \<noteq> CHR ''.'') (rev t @ CHR ''.'' # rev d) = rev t"
    by (rule takeWhile_to_dot [OF letters_no_dot [OF t(2)]])
  show "email_shape s"
    unfolding email_shape_def sp
    using l d t by (simp add: tw)
qed

lemma fullmatch_email_pattern: "fullmatch email_pattern s \<longleftrightarrow> email_shape s"
  by (simp only: fullmatch_lang lang_email_pattern email_shape_iff)

text \<open>
  \<^verbatim>\<open>__validate_email\<close> accepts exactly the strings of the email shape and those
  strings followed by one newline.
\<close>

lemma validate_email_iff:
  "validate_email s \<longleftrightarrow> email_shape s \<or> (\<exists>w. s = w @ [CHR 0x0A] \<and> email_shape w)"
proof -
  have "(s \<noteq> [] \<and> last s = CHR 0x0A \<and> email_shape (butlast s)) \<longleftrightarrow>
          (\<exists>w. s = w @ [CHR 0x0A] \<and> email_shape w)"
    by (cases s rule: rev_cases) auto
  then show ?thesis
    by (simp add: validate_email_def re_match_anchored_def fullmatch_email_pattern)
qed


section \<open>Properties of SecureUser\<close>

lemma audit_log_log_action [simp]:
  "audit_log (log_action now action d ok details su) =
     audit_log su @
       [\<lparr>ae_timestamp = now, ae_action = action, ae_description = d, ae_success = ok,
         ae_user = username (identity su),
         ae_verification_status = verification_status (identity su),
         ae_details = (case details of
                         None \<Rightarrow> None
                       | Some x \<Rightarrow> if x = [] then None else Some x)\<rparr>]"
  by (simp add: log_action_def get_verification_status_def)

lemma access_log_action [simp]:
  "access (log_action now action d ok details su) = access su"
  by (simp add: log_action_def)

lemma identity_log_action [simp]:
  "identity (log_action now action d ok details su) = identity su"
  by (simp add: log_action_def)

lemma restricted_allowed: "p \<in> RESTRICTED_PERMISSIONS \<Longrightarrow> p \<in> ALLOWED_PERMISSIONS"
  by (auto simp: RESTRICTED_PERMISSIONS_def ALLOWED_PERMISSIONS_def)

subsection \<open>The example account\<close>

lemma validate_email_alice: "validate_email ''alice@example.com''"
  by (simp add: validate_email_def re_match_anchored_def email_pattern_def Lit_def Plus_def
      AtLeast_def eval_nat_numeral)

lemma validate_phone_alice: "validate_phone ''+1-555-111-2222''"
  by (simp add: validate_phone_def re_match_anchored_def phone_pattern_def Lit_def
      Between_def digit_def eval_nat_numeral)

lemma alice_created:
  "SecureUser_init example_clock ''alice'' ''alice@example.com'' ''+1-555-111-2222'' = Inr alice"
  by (simp add: SecureUser_init_def UserIdentity_init_def set_email_def set_phone_number_def
      validate_email_alice validate_phone_alice log_state_change_def log_action_def
      AccountAccess_init_def log_permission_change_def alice_def str_opt_def
      get_verification_status_def Let_def)

lemma alice_fields [simp]:
  "verification_status (identity alice) = ''UNVERIFIED''"
  "permissions (access alice) = []"
  "email (identity alice) = Some ''alice@example.com''"
  "length (audit_log alice) = 1"
  by (simp_all add: alice_def)

text \<open>The account once \<^verbatim>\<open>request_verification()\<close> and \<^verbatim>\<open>verify_identity()\<close> have run.\<close>

lemma alice_verified:
  "fst (SecureUser_request_verification example_clock alice) = True"
  "fst (verify_identity example_clock
         (snd (SecureUser_request_verification example_clock alice))) = True"
  "verification_status (identity (snd (verify_identity example_clock
     (snd (SecureUser_request_verification example_clock alice))))) = ''VERIFIED''"
  "permissions (access (snd (verify_identity example_clock
     (snd (SecureUser_request_verification example_clock alice))))) = []"
  by (simp_all add: SecureUser_request_verification_def verify_identity_def
      request_verification_def verify_def split_beta)

subsection \<open>Granting permissions\<close>

text \<open>
  C1. For a permission \<open>p\<close> in \<^verbatim>\<open>RESTRICTED_PERMISSIONS\<close> that is not yet granted,
  \<^verbatim>\<open>grant_permission(p)\<close> returns \<^verbatim>\<open>(True, "Permission granted: p")\<close> and adds \<open>p\<close> to
  the granted permissions when the verification state is \<^verbatim>\<open>VERIFIED\<close>; in any other
  state it returns False with a message and leaves the granted permissions unchanged.
\<close>

theorem restricted_needs_verified:
  assumes "p \<in> RESTRICTED_PERMISSIONS"
    and "p \<notin> set (permissions (access su))"
  shows "if verification_status (identity su) = ''VERIFIED''
         then fst (grant_permission clk p su) = (True, ''Permission granted: '' @ p)
              \<and> permissions (access (snd (grant_permission clk p su))) =
                  permissions (access su) @ [p]
              \<and> set (SecureUser_get_permissions (snd (grant_permission clk p su))) =
                  insert p (set (SecureUser_get_permissions su))
         else fst (grant_permission clk p su) =
                (False, ''Cannot grant '' @ [CHR 0x27] @ p @ [CHR 0x27] @
                        '' - user must be VERIFIED'')
              \<and> permissions (access (snd (grant_permission clk p su))) =
                  permissions (access su)"
  using assms restricted_allowed [OF assms(1)]
  by (simp add: grant_permission_def add_permission_def get_verification_status_def
      SecureUser_get_permissions_def get_permissions_def Let_def)

theorem restricted_needs_verified_witness:
  "''TRANSFER'' \<in> RESTRICTED_PERMISSIONS
   \<and> ''TRANSFER'' \<notin> set (permissions (access alice))
   \<and> fst (fst (grant_permission example_clock ''TRANSFER'' alice)) = False
   \<and> permissions (access (snd (grant_permission example_clock ''TRANSFER'' alice))) = []
   \<and> fst (grant_permission example_clock ''TRANSFER''
            (snd (verify_identity example_clock
                   (snd (SecureUser_request_verification example_clock alice))))) =
       (True, ''Permission granted: TRANSFER'')
   \<and> permissions (access (snd (grant_permission example_clock ''TRANSFER''
        (snd (verify_identity example_clock
               (snd (SecureUser_request_verification example_clock alice))))))) =
       [''TRANSFER'']"
  using restricted_needs_verified [of "''TRANSFER''" alice example_clock]
    restricted_needs_verified [of "''TRANSFER''"
      "snd (verify_identity example_clock
             (snd (SecureUser_request_verification example_clock alice)))" example_clock]
  by (simp add: RESTRICTED_PERMISSIONS_def alice_verified)

text \<open>
  C4. For a permission name \<open>p\<close> outside \<^verbatim>\<open>ALLOWED_PERMISSIONS\<close>,
  \<^verbatim>\<open>grant_permission(p)\<close> returns False with the reason \<^verbatim>\<open>"Invalid permission: p"\<close>,
  the message of the unknown-permission check, and does not alter the granted
  permissions, whatever the verification state is.
\<close>

theorem unknown_permission_rejected:
  assumes "p \<notin> ALLOWED_PERMISSIONS"
  shows "fst (grant_permission clk p su) = (False, ''Invalid permission: '' @ p)
         \<and> permissions (access (snd (grant_permission clk p su))) = permissions (access su)"
  using assms
  by (simp add: grant_permission_def add_permission_def Let_def)

theorem unknown_permission_rejected_witness:
  "''DELETE_DATABASE'' \<notin> ALLOWED_PERMISSIONS
   \<and> fst (grant_permission example_clock ''DELETE_DATABASE'' alice) =
       (False, ''Invalid permission: DELETE_DATABASE'')
   \<and> permissions (access (snd (grant_permission example_clock ''DELETE_DATABASE'' alice))) = []"
  using unknown_permission_rejected [of "''DELETE_DATABASE''" example_clock alice]
  by (simp add: ALLOWED_PERMISSIONS_def)

subsection \<open>The audit log\<close>

lemma user_step_appends:
  "\<exists>e. audit_log (user_step su c) = audit_log su @ [e]
       \<and> ae_success e = user_call_success su c"
proof (cases c)
  case (GrantPermission clk p)
  then show ?thesis
    by (simp add: grant_permission_def split_beta Let_def)
next
  case (RevokePermission clk p)
  then show ?thesis
    by (simp add: revoke_permission_def split_beta Let_def)
next
  case (RequestVerificationCall clk)
  then show ?thesis
    by (simp add: SecureUser_request_verification_def split_beta Let_def)
next
  case (VerifyIdentity clk)
  then show ?thesis
    by (simp add: verify_identity_def split_beta Let_def)
next
  case (UpdateEmail clk e)
  then show ?thesis
    by (simp add: update_email_def split: sum.splits error.splits)
qed

lemma user_run_extends:
  "length (audit_log (foldl user_step su calls)) = length (audit_log su) + length calls
   \<and> take (length (audit_log su)) (audit_log (foldl user_step su calls)) = audit_log su"
proof (induction calls arbitrary: su)
  case Nil
  show ?case by simp
next
  case (Cons c calls)
  from user_step_appends [of su c] obtain e where
    e: "audit_log (user_step su c) = audit_log su @ [e]"
    by blast
  have "take (length (audit_log su)) (audit_log (foldl user_step (user_step su c) calls)) =
          take (length (audit_log su))
            (take (length (audit_log (user_step su c)))
               (audit_log (foldl user_step (user_step su c) calls)))"
    using e by simp
  also have "\<dots> = take (length (audit_log su)) (audit_log (user_step su c))"
    using Cons.IH [of "user_step su c"] by simp
  also have "\<dots> = audit_log su"
    using e by simp
  finally show ?case
    using Cons.IH [of "user_step su c"] e by simp
qed

text \<open>
  C6. Each of \<^verbatim>\<open>grant_permission\<close>, \<^verbatim>\<open>revoke_permission\<close>,
  \<^verbatim>\<open>request_verification\<close>, \<^verbatim>\<open>verify_identity\<close> and \<^verbatim>\<open>update_email\<close> appends exactly
  one entry to the audit log, whether it succeeds or fails (the entry records which),
  and leaves the entries before it unchanged: the old log is a prefix of the new one,
  and the length grows by one with every call.
\<close>

theorem audit_append_only:
  "(\<exists>e. audit_log (user_step su c) = audit_log su @ [e]
        \<and> ae_success e = user_call_success su c)
   \<and> length (audit_log (user_step su c)) = Suc (length (audit_log su))
   \<and> take (length (audit_log su)) (audit_log (user_step su c)) = audit_log su
   \<and> length (audit_log (foldl user_step su calls)) = length (audit_log su) + length calls
   \<and> take (length (audit_log su)) (audit_log (foldl user_step su calls)) = audit_log su"
proof -
  from user_step_appends [of su c] obtain e where
    "audit_log (user_step su c) = audit_log su @ [e]"
    and "ae_success e = user_call_success su c"
    by blast
  then show ?thesis
    using user_run_extends [of su calls] by simp
qed

subsection \<open>Validation at the constructor and in \<^verbatim>\<open>update_email\<close>\<close>

lemma init_invalid_email:
  assumes "\<not> validate_email e"
  shows "SecureUser_init clk n e p = Inl (ValueError (''Invalid email format: '' @ e))"
  using assms by (simp add: SecureUser_init_def UserIdentity_init_def set_email_def)

lemma init_invalid_phone:
  assumes "validate_email e" and "\<not> validate_phone p"
  shows "SecureUser_init clk n e p = Inl (ValueError (''Invalid phone format: '' @ p))"
  using assms
  by (simp add: SecureUser_init_def UserIdentity_init_def set_email_def set_phone_number_def
      Let_def)

lemma init_valid:
  assumes "validate_email e" and "validate_phone p"
  shows "\<exists>su. SecureUser_init clk n e p = Inr su
           \<and> get_email (identity su) = Some e
           \<and> get_phone_number (identity su) = Some p
           \<and> get_verification_status (identity su) = ''UNVERIFIED''
           \<and> SecureUser_get_permissions su = []"
  using assms
  by (simp add: SecureUser_init_def UserIdentity_init_def set_email_def set_phone_number_def
      get_email_def get_phone_number_def get_verification_status_def
      SecureUser_get_permissions_def get_permissions_def AccountAccess_init_def Let_def)

text \<open>
  The constructor returns an object exactly when both validators accept, so what is
  stored has passed \<^verbatim>\<open>__validate_email\<close> and \<^verbatim>\<open>__validate_phone\<close>.
\<close>

lemma init_Inr_iff:
  "(\<exists>su. SecureUser_init clk n e p = Inr su) \<longleftrightarrow> validate_email e \<and> validate_phone p"
proof
  assume "\<exists>su. SecureUser_init clk n e p = Inr su"
  then show "validate_email e \<and> validate_phone p"
    using init_invalid_email [of e clk n p] init_invalid_phone [of e p clk n] by fastforce
next
  assume "validate_email e \<and> validate_phone p"
  then show "\<exists>su. SecureUser_init clk n e p = Inr su"
    using init_valid [of e p clk n] by blast
qed

lemma phone_123456789_rejected:
  "SecureUser_init clk n ''alice@example.com'' ''123456789'' =
     Inl (ValueError ''Invalid phone format: 123456789'')"
proof -
  have "\<not> validate_phone ''123456789''"
    by (simp add: validate_phone_def re_match_anchored_def phone_pattern_def Lit_def
        Between_def digit_def eval_nat_numeral)
  from init_invalid_phone [OF validate_email_alice this] show ?thesis
    by simp
qed

text \<open>
  The \<^verbatim>\<open>except ValueError\<close> branch of \<^verbatim>\<open>update_email\<close>: for every candidate that
  \<^verbatim>\<open>__validate_email\<close> rejects, the result is False with the exception's message, the
  identity and the access object are untouched, and one failed \<^verbatim>\<open>UPDATE_EMAIL\<close> entry
  is appended.
\<close>

lemma update_email_rejected:
  assumes "\<not> validate_email c"
  shows "fst (update_email clk c su) = (False, ''Invalid email format: '' @ c)"
    and "identity (snd (update_email clk c su)) = identity su"
    and "access (snd (update_email clk c su)) = access su"
    and "audit_log (snd (update_email clk c su)) =
           audit_log su @
             [\<lparr>ae_timestamp = clk 0, ae_action = ''UPDATE_EMAIL'',
               ae_description = ''Failed to update email: Invalid email format: '' @ c,
               ae_success = False, ae_user = username (identity su),
               ae_verification_status = verification_status (identity su),
               ae_details = None\<rparr>]"
  using assms by (simp_all add: update_email_def set_email_def)

lemma update_email_accepted:
  assumes "validate_email c"
  shows "fst (update_email clk c su) = (True, ''Email updated successfully'')"
    and "get_email (identity (snd (update_email clk c su))) = Some c"
  using assms by (simp_all add: update_email_def set_email_def get_email_def Let_def)

lemma not_an_email_rejected:
  "fst (update_email example_clock ''not-an-email'' alice) =
     (False, ''Invalid email format: not-an-email'')
   \<and> get_email (identity (snd (update_email example_clock ''not-an-email'' alice))) =
       Some ''alice@example.com''
   \<and> length (audit_log (snd (update_email example_clock ''not-an-email'' alice))) = 2
   \<and> ae_success (last (audit_log (snd (update_email example_clock ''not-an-email'' alice)))) =
       False"
proof -
  have "\<not> validate_email ''not-an-email''"
    by (simp add: validate_email_def re_match_anchored_def email_pattern_def Lit_def Plus_def
        AtLeast_def eval_nat_numeral)
  from update_email_rejected [OF this, of example_clock alice] show ?thesis
    by (simp add: get_email_def)
qed

subsection \<open>A newline at the end of the string\<close>

text \<open>
  \<^verbatim>\<open>$\<close> also holds before a final newline, so both validators accept a string of the
  right shape followed by one newline, although such a string has not the shape itself.
\<close>

lemma validate_phone_newline: "validate_phone ''+1-555-111-2222\<newline>''"
  by (simp add: validate_phone_def re_match_anchored_def phone_pattern_def Lit_def
      Between_def digit_def eval_nat_numeral)

lemma validate_email_newline: "validate_email ''bob@example.com\<newline>''"
  by (simp add: validate_email_def re_match_anchored_def email_pattern_def Lit_def Plus_def
      AtLeast_def eval_nat_numeral)

text \<open>
  Stated with the shapes: the constructor returns an account exactly when email and
  phone number each have their shape or have it up to one final newline, and
  \<^verbatim>\<open>update_email\<close> succeeds exactly for such candidates. For every other input the
  constructor raises and \<^verbatim>\<open>update_email\<close> returns False.
\<close>

lemma init_Inr_shapes:
  "(\<exists>su. SecureUser_init clk n e p = Inr su) \<longleftrightarrow>
     (email_shape e \<or> (\<exists>w. e = w @ [CHR 0x0A] \<and> email_shape w))
     \<and> (phone_shape p \<or> (\<exists>w. p = w @ [CHR 0x0A] \<and> phone_shape w))"
  by (simp only: init_Inr_iff validate_email_iff validate_phone_iff)

lemma update_email_shapes:
  "fst (fst (update_email clk c su)) \<longleftrightarrow>
     email_shape c \<or> (\<exists>w. c = w @ [CHR 0x0A] \<and> email_shape w)"
proof (cases "validate_email c")
  case True
  with update_email_accepted(1) [OF True, of clk su] show ?thesis
    by (simp add: validate_email_iff)
next
  case False
  with update_email_rejected(1) [OF False, of clk su] show ?thesis
    by (simp add: validate_email_iff)
qed

text \<open>
  C7, at the input \<^verbatim>\<open>"+1-555-111-2222\n"\<close>. The phone number does not match the shape
  \<^verbatim>\<open>+<1-3 digits>-<2-3 digits>-<3-4 digits>-<4-5 digits>\<close>, yet the constructor raises
  nothing: it returns an account whose stored phone number is that string.
\<close>

theorem phone_newline_constructs:
  "\<not> phone_shape ''+1-555-111-2222\<newline>''
   \<and> (\<exists>su. SecureUser_init example_clock ''alice'' ''alice@example.com''
              ''+1-555-111-2222\<newline>'' = Inr su
          \<and> get_phone_number (identity su) = Some ''+1-555-111-2222\<newline>'')"
proof -
  have "\<not> phone_shape ''+1-555-111-2222\<newline>''"
    by (simp add: phone_shape_def digit_group_def is_digit_def)
  moreover
  from init_valid [OF validate_email_alice validate_phone_newline, of example_clock "''alice''"]
  have "\<exists>su. SecureUser_init example_clock ''alice'' ''alice@example.com''
              ''+1-555-111-2222\<newline>'' = Inr su
          \<and> get_phone_number (identity su) = Some ''+1-555-111-2222\<newline>''"
    by blast
  ultimately show ?thesis
    by blast
qed

text \<open>
  C3, at the input \<^verbatim>\<open>"bob@example.com\n"\<close>. The candidate does not match the email
  shape, yet \<^verbatim>\<open>update_email\<close> reports success and stores it.
\<close>

theorem email_newline_updates:
  "\<not> email_shape ''bob@example.com\<newline>''
   \<and> fst (update_email example_clock ''bob@example.com\<newline>'' alice) =
       (True, ''Email updated successfully'')
   \<and> get_email (identity (snd (update_email example_clock ''bob@example.com\<newline>'' alice))) =
       Some ''bob@example.com\<newline>''"
proof -
  have "\<not> email_shape ''bob@example.com\<newline>''"
    by (simp add: email_shape_def local_char_def domain_char_def is_digit_def is_letter_def)
  then show ?thesis
    using update_email_accepted [OF validate_email_newline, of example_clock alice]
    by simp
qed

section \<open>Properties of the accessors\<close>

text \<open>
  Reading a value depends only on the objects reachable from it. In a store without
  dangling references, whatever is read through references into it stays the same when
  objects are added behind it or changed there.
\<close>

lemma closed_store_refs:
  assumes "closed_store h" and "a < length h" and "r \<in> set (refs_of_obj (h ! a))"
  shows "r < length h"
  using assms by (auto simp: closed_store_def list_all_iff)

lemma deep_frame:
  assumes "closed_store h"
    and "length h \<le> length h'"
    and "\<And>a. a < length h \<Longrightarrow> h' ! a = h ! a"
  shows "list_all (\<lambda>a. a < length h) (refs_of_val v) \<Longrightarrow> deep n h' v = deep n h v"
proof (induction n arbitrary: v)
  case 0
  then show ?case by (cases v) simp_all
next
  case (Suc n)
  show ?case
  proof (cases v)
    case (VRef a)
    with Suc.prems have a: "a < length h" by simp
    then have a': "a < length h'" and same: "h' ! a = h ! a"
      using assms(2,3) by auto
    show ?thesis
    proof (cases "h ! a")
      case (ListObj xs)
      have "deep n h' x = deep n h x" if "x \<in> set xs" for x
      proof (rule Suc.IH)
        have "set (refs_of_val x) \<subseteq> set (refs_of_obj (h ! a))"
          using that ListObj by auto
        then show "list_all (\<lambda>a. a < length h) (refs_of_val x)"
          using closed_store_refs [OF assms(1) a] by (auto simp: list_all_iff)
      qed
      then show ?thesis using VRef a a' same ListObj by simp
    next
      case (DictObj kvs)
      have "deep n h' (snd kv) = deep n h (snd kv)" if "kv \<in> set kvs" for kv
      proof (rule Suc.IH)
        have "set (refs_of_val (snd kv)) \<subseteq> set (refs_of_obj (h ! a))"
          using that DictObj by auto
        then show "list_all (\<lambda>a. a < length h) (refs_of_val (snd kv))"
          using closed_store_refs [OF assms(1) a] by (auto simp: list_all_iff)
      qed
      then show ?thesis using VRef a a' same DictObj by simp
    qed
  qed simp_all
qed

lemma deep_copied_list:
  assumes "closed_store h" and "a < length h" and "h ! a = ListObj xs"
    and "length h \<le> length h'" and "\<And>b. b < length h \<Longrightarrow> h' ! b = h ! b"
    and "r < length h'" and "h' ! r = ListObj xs"
  shows "deep n h' (VRef r) = deep n h (VRef a)"
proof (cases n)
  case 0
  then show ?thesis by simp
next
  case (Suc m)
  have "deep m h' x = deep m h x" if "x \<in> set xs" for x
  proof (rule deep_frame [OF assms(1,4,5)])
    have "set (refs_of_val x) \<subseteq> set (refs_of_obj (h ! a))"
      using that assms(3) by auto
    then show "list_all (\<lambda>a. a < length h) (refs_of_val x)"
      using closed_store_refs [OF assms(1,2)] by (auto simp: list_all_iff)
  qed
  then show ?thesis using Suc assms(2,3,6,7) by simp
qed

lemma list_copy_Some:
  "list_copy a h = Some (r, h1) \<longleftrightarrow>
     (\<exists>xs. a < length h \<and> h ! a = ListObj xs \<and> r = length h \<and> h1 = h @ [ListObj xs])"
  by (auto simp: list_copy_def split: pyobj.splits)


lemma accessor_call_SomeD:
  assumes "accessor_call acc ob h = Some (r, h1)"
  shows "\<exists>xs ext. accessor_source acc ob < length h
           \<and> h ! accessor_source acc ob = ListObj xs
           \<and> r = length h \<and> h1 = h @ ListObj xs # ext"
  using assms
  by (cases acc)
    (auto simp: accessor_source_def store_get_permissions_def store_get_audit_log_def
      store_identity_status_def list_copy_Some nth_append
      split: option.splits pyobj.splits pyval.splits prod.splits)

lemma accessor_call_SomeI:
  assumes "accessor_source acc ob < length h"
    and "h ! accessor_source acc ob = ListObj xs"
  shows "\<exists>ext. accessor_call acc ob h = Some (length h, h @ ListObj xs # ext)"
  using assms
  by (cases acc)
    (auto simp: accessor_source_def store_get_permissions_def store_get_audit_log_def
      store_identity_status_def list_copy_def nth_append)

lemma accessor_reads_source:
  assumes "closed_store h"
    and "accessor_call acc ob h' = Some (r, h1)"
    and "length h \<le> length h'"
    and "\<And>a. a < length h \<Longrightarrow> h' ! a = h ! a"
    and "accessor_source acc ob < length h"
  shows "deep n h1 (VRef r) = deep n h (VRef (accessor_source acc ob))"
proof -
  let ?src = "accessor_source acc ob"
  from accessor_call_SomeD [OF assms(2)] obtain xs ext where
    src: "?src < length h'" "h' ! ?src = ListObj xs"
    and r: "r = length h'" and h1: "h1 = h' @ ListObj xs # ext"
    by blast
  have "h ! ?src = ListObj xs"
    using assms(4) [OF assms(5)] src(2) by simp
  moreover have "length h \<le> length h1"
    using assms(3) h1 by simp
  moreover have "h1 ! b = h ! b" if "b < length h" for b
    using that assms(3,4) h1 by (simp add: nth_append)
  moreover have "r < length h1" "h1 ! r = ListObj xs"
    using r h1 by (simp_all add: nth_append)
  ultimately show ?thesis
    using deep_copied_list [OF assms(1,5)] by blast
qed

lemma accessor_stable:
  assumes "closed_store h"
    and "accessor_call acc ob h = Some (r, h1)"
    and "length h \<le> length h'"
    and "\<And>a. a < length h \<Longrightarrow> h' ! a = h ! a"
  shows "\<exists>r2 h2. accessor_call acc ob h' = Some (r2, h2)
           \<and> deep n h2 (VRef r2) = deep n h1 (VRef r)"
proof -
  let ?src = "accessor_source acc ob"
  from accessor_call_SomeD [OF assms(2)] obtain xs where
    src: "?src < length h" "h ! ?src = ListObj xs"
    by blast
  have "?src < length h'" "h' ! ?src = ListObj xs"
    using src assms(3,4) by auto
  from accessor_call_SomeI [OF this] obtain ext where
    call: "accessor_call acc ob h' = Some (length h', h' @ ListObj xs # ext)"
    by blast
  have "deep n (h' @ ListObj xs # ext) (VRef (length h')) = deep n h (VRef ?src)"
    by (rule accessor_reads_source [OF assms(1) call assms(3,4) src(1)])
  moreover have "deep n h1 (VRef r) = deep n h (VRef ?src)"
    by (rule accessor_reads_source [OF assms(1,2) _ _ src(1)]) simp_all
  ultimately show ?thesis
    using call by simp
qed

text \<open>
  Every accessor returns the address of a new list object, which no object of the store
  refers to and which reads, at every depth, as the stored list reads. Whatever items the
  caller leaves in the returned list, the stored list keeps its items, and the next call
  succeeds and again reads as the stored list.
\<close>

lemma defensive_copies:
  assumes "closed_store h"
    and "accessor_call acc ob h = Some (r, h1)"
  shows "r = length h"
    and "accessor_source acc ob < length h"
    and "h1 ! r = h ! accessor_source acc ob"
    and "deep n h1 (VRef r) = deep n h (VRef (accessor_source acc ob))"
    and "mutate_list r xs h1 ! accessor_source acc ob = h ! accessor_source acc ob"
    and "\<exists>r2 h3. accessor_call acc ob (mutate_list r xs h1) = Some (r2, h3)
           \<and> deep n h3 (VRef r2) = deep n h (VRef (accessor_source acc ob))"
proof -
  let ?src = "accessor_source acc ob"
  from accessor_call_SomeD [OF assms(2)] obtain ys ext where
    src: "?src < length h" "h ! ?src = ListObj ys"
    and r: "r = length h" and h1: "h1 = h @ ListObj ys # ext"
    by blast
  show "r = length h" by (rule r)
  show "?src < length h" by (rule src(1))
  show "h1 ! r = h ! ?src"
    using r h1 src(2) by (simp add: nth_append)
  show read: "deep n h1 (VRef r) = deep n h (VRef ?src)"
    by (rule accessor_reads_source [OF assms(1,2) _ _ src(1)]) simp_all
  show "mutate_list r xs h1 ! ?src = h ! ?src"
    using r h1 src(1) by (simp add: mutate_list_def nth_append)
  have len: "length h \<le> length (mutate_list r xs h1)"
    using h1 by (simp add: mutate_list_def)
  have same: "mutate_list r xs h1 ! a = h ! a" if "a < length h" for a
    using that r h1 by (simp add: mutate_list_def nth_append)
  from accessor_stable [OF assms len same, of n] read
  show "\<exists>r2 h3. accessor_call acc ob (mutate_list r xs h1) = Some (r2, h3)
           \<and> deep n h3 (VRef r2) = deep n h (VRef ?src)"
    by simp
qed

text \<open>
  The test of the repository: two names appended to the list returned by
  \<^verbatim>\<open>get_permissions()\<close> are not in the list the next call returns.
\<close>

lemma appended_permissions_not_stored:
  "accessor_call GetPermissions example_object example_store =
     Some (3, example_store @ [ListObj [VStr ''TRANSFER'', VStr ''WITHDRAW'']])
   \<and> (\<exists>h3. accessor_call GetPermissions example_object
              (mutate_list 3
                 [VStr ''TRANSFER'', VStr ''WITHDRAW'', VStr ''ADMIN_ACCESS'', VStr ''ROOT_ACCESS'']
                 (example_store @ [ListObj [VStr ''TRANSFER'', VStr ''WITHDRAW'']])) =
              Some (4, h3)
           \<and> deep 1 h3 (VRef 4) = TList [TStr ''TRANSFER'', TStr ''WITHDRAW''])"
  by (simp add: store_get_permissions_def list_copy_def example_object_def example_store_def
      mutate_list_def)

subsection \<open>The layout of an account\<close>

lemma closed_store_append:
  assumes "closed_store h"
    and "list_all (\<lambda>ob. list_all (\<lambda>a. a < length h + length ext) (refs_of_obj ob)) ext"
  shows "closed_store (h @ ext)"
  using assms by (fastforce simp: closed_store_def list_all_iff)

lemma refs_of_detail: "refs_of_val (detail_val v) = []"
  by (cases v) (simp_all add: detail_val_def)

lemma refs_of_entry_items: "refs_of_obj (DictObj (entry_items e)) = []"
  by (simp add: entry_items_def)

lemma alloc_entry_closed:
  assumes "closed_store h" and "alloc_entry e h = (a, h1)"
  shows "closed_store h1 \<and> a < length h1 \<and> length h \<le> length h1"
proof (cases "ae_details e")
  case None
  with assms(2) have "h1 = h @ [DictObj (entry_items e)]" "a = length h"
    by (simp_all add: alloc_entry_def)
  then show ?thesis
    using closed_store_append [OF assms(1), of "[DictObj (entry_items e)]"]
    by (simp add: entry_items_def)
next
  case (Some d)
  let ?ext = "[DictObj (map (\<lambda>kv. (fst kv, detail_val (snd kv))) d),
               DictObj (entry_items e @ [(''details'', VRef (length h))])]"
  from Some assms(2) have h1: "h1 = h @ ?ext" "a = Suc (length h)"
    by (simp_all add: alloc_entry_def)
  have "refs_of_obj (DictObj (map (\<lambda>kv. (fst kv, detail_val (snd kv))) d)) = []"
    by (induction d) (simp_all add: refs_of_detail)
  moreover have "refs_of_obj (DictObj (entry_items e @ [(''details'', VRef (length h))])) =
                   [length h]"
    by (simp add: entry_items_def)
  ultimately
  have "list_all (\<lambda>ob. list_all (\<lambda>a. a < length h + length ?ext) (refs_of_obj ob)) ?ext"
    by (simp del: refs_of_obj.simps)
  from closed_store_append [OF assms(1) this] h1 show ?thesis
    by simp
qed

lemma alloc_entries_closed:
  assumes "closed_store h" and "alloc_entries es h = (refs, h1)"
  shows "closed_store h1 \<and> list_all (\<lambda>a. a < length h1) refs \<and> length h \<le> length h1"
  using assms
proof (induction es arbitrary: h refs h1)
  case Nil
  then show ?case by simp
next
  case (Cons e es)
  obtain a ha where a: "alloc_entry e h = (a, ha)"
    by (cases "alloc_entry e h")
  obtain as hb where as: "alloc_entries es ha = (as, hb)"
    by (cases "alloc_entries es ha")
  from Cons.prems(2) a as have eq: "refs = a # as" "h1 = hb"
    by simp_all
  from alloc_entry_closed [OF Cons.prems(1) a]
  have ha: "closed_store ha" "a < length ha" "length h \<le> length ha"
    by simp_all
  from Cons.IH [OF ha(1) as]
  have "closed_store hb" "list_all (\<lambda>a. a < length hb) as" "length ha \<le> length hb"
    by simp_all
  with ha eq show ?case by simp
qed

lemma closed_store_Nil: "closed_store []"
  by (simp add: closed_store_def)

lemma store_of_closed: "closed_store (snd (store_of su))"
proof -
  obtain refs h1 where al: "alloc_entries (audit_log su) [] = (refs, h1)"
    by (cases "alloc_entries (audit_log su) []")
  from alloc_entries_closed [OF closed_store_Nil al]
  have h1: "closed_store h1" "list_all (\<lambda>a. a < length h1) refs"
    by simp_all
  let ?ext = "[ListObj (map VRef refs), ListObj (map VStr (permissions (access su)))]"
  have "concat (map refs_of_val (map VRef refs)) = refs"
    by (induction refs) simp_all
  moreover have "concat (map refs_of_val (map VStr ps)) = []" for ps
    by (induction ps) simp_all
  ultimately have "list_all (\<lambda>ob. list_all (\<lambda>a. a < length h1 + length ?ext) (refs_of_obj ob)) ?ext"
    using h1(2) by (auto simp: list_all_iff)
  from closed_store_append [OF h1(1) this] al show ?thesis
    by (simp add: store_of_def)
qed

lemma store_of_accessors:
  "\<exists>r h1. accessor_call acc (fst (store_of su)) (snd (store_of su)) = Some (r, h1)"
proof -
  obtain refs h1 where al: "alloc_entries (audit_log su) [] = (refs, h1)"
    by (cases "alloc_entries (audit_log su) []")
  let ?h = "h1 @ [ListObj (map VRef refs), ListObj (map VStr (permissions (access su)))]"
  let ?ob = "\<lparr>obj_identity = identity su, obj_permissions = Suc (length h1),
              obj_audit_log = length h1\<rparr>"
  have so: "store_of su = (?ob, ?h)"
    using al by (simp add: store_of_def)
  have "accessor_source acc ?ob < length ?h"
    by (cases acc) (simp_all add: accessor_source_def)
  moreover have "\<exists>xs. ?h ! accessor_source acc ?ob = ListObj xs"
    by (cases acc) (simp_all add: accessor_source_def nth_append)
  ultimately show ?thesis
    using accessor_call_SomeI [of acc ?ob ?h] so by auto
qed

lemma alice_store_eq:
  "alice_store =
     [DictObj [(''timestamp'', VStr (example_clock 4)), (''action'', VStr ''USER_CREATED''),
               (''description'', VStr ''SecureUser created for alice''),
               (''success'', VBool True), (''user'', VStr ''alice''),
               (''verification_status'', VStr ''UNVERIFIED'')],
      ListObj [VRef 0],
      ListObj []]"
  "obj_audit_log alice_object = 1"
  "obj_permissions alice_object = 2"
  by (simp_all add: alice_store_def alice_object_def store_of_def alloc_entry_def entry_items_def
      alice_def)

lemma defensive_copies_example:
  "closed_store alice_store
   \<and> accessor_call GetAuditLog alice_object alice_store =
       Some (3, alice_store @ [ListObj [VRef 0]])
   \<and> (\<exists>r2 h3.
        accessor_call GetAuditLog alice_object
          (mutate_list 3 [VRef 0, VStr ''fake''] (alice_store @ [ListObj [VRef 0]])) =
          Some (r2, h3)
        \<and> deep 2 h3 (VRef r2) = deep 2 alice_store (VRef (obj_audit_log alice_object)))"
proof -
  have c: "closed_store alice_store"
    unfolding alice_store_def by (rule store_of_closed)
  have a: "accessor_call GetAuditLog alice_object alice_store =
             Some (3, alice_store @ [ListObj [VRef 0]])"
    by (simp add: alice_store_eq store_get_audit_log_def list_copy_def)
  from defensive_copies(6) [OF c a, of "[VRef 0, VStr ''fake'']" 2] c a show ?thesis
    by (simp add: accessor_source_def)
qed

subsection \<open>The entries of the audit log\<close>

text \<open>
  The copy is one level deep. The permission list holds strings, which nobody can
  change. The audit log holds references to its entry dicts, and the list returned by
  \<^verbatim>\<open>get_audit_log\<close> holds the same references: the dict a caller finds at
  \<^verbatim>\<open>log[i]\<close> is the entry of the stored audit log, a write \<^verbatim>\<open>log[i][k] = v\<close> lands in
  it, and the next call of \<^verbatim>\<open>get_audit_log\<close> returns a list that shows the written
  value.
\<close>

lemma entry_write_through:
  assumes "accessor_call GetAuditLog ob h = Some (r, h1)"
    and "list_getitem r i h1 = Some (VRef e)"
    and "e < length h"
    and "h ! e = DictObj kvs"
  shows "list_getitem (obj_audit_log ob) i h = Some (VRef e)"
    and "list_getitem (obj_audit_log ob) i (dict_setitem e k v h1) = Some (VRef e)"
    and "dict_getitem e k (dict_setitem e k v h1) = Some v"
    and "\<exists>r2 h3. accessor_call GetAuditLog ob (dict_setitem e k v h1) = Some (r2, h3)
           \<and> entry_field r2 i k h3 = Some v"
proof -
  let ?src = "obj_audit_log ob"
  from accessor_call_SomeD [OF assms(1)] obtain ys ext where
    src: "?src < length h" "h ! ?src = ListObj ys"
    and r: "r = length h" and h1: "h1 = h @ ListObj ys # ext"
    by (auto simp: accessor_source_def)
  from assms(2) r h1 have i: "i < length ys" "ys ! i = VRef e"
    by (auto simp: list_getitem_def nth_append split: if_splits)
  have ne: "e \<noteq> ?src"
    using src(2) assms(4) by auto
  have e1: "e < length h1" "h1 ! e = DictObj kvs"
    using assms(3,4) h1 by (simp_all add: nth_append)
  have s1: "?src < length h1" "h1 ! ?src = ListObj ys"
    using src h1 by (simp_all add: nth_append)
  define h2 where "h2 = h1[e := DictObj (AList.update k v kvs)]"
  have h2: "dict_setitem e k v h1 = h2"
    using e1 by (simp add: dict_setitem_def h2_def)
  have len: "length h2 = length h1"
    by (simp add: h2_def)
  have at_src: "h2 ! ?src = ListObj ys"
    using s1 ne by (simp add: h2_def)
  have at_e: "h2 ! e = DictObj (AList.update k v kvs)"
    using e1 by (simp add: h2_def)
  show "list_getitem ?src i h = Some (VRef e)"
    using src i by (simp add: list_getitem_def)
  show "list_getitem ?src i (dict_setitem e k v h1) = Some (VRef e)"
    unfolding h2 using s1(1) i at_src len by (simp add: list_getitem_def)
  show "dict_getitem e k (dict_setitem e k v h1) = Some v"
    unfolding h2 using e1(1) at_e len by (simp add: dict_getitem_def update_conv')
  have call: "accessor_call GetAuditLog ob h2 = Some (length h2, h2 @ [ListObj ys])"
    using s1(1) at_src len by (simp add: store_get_audit_log_def list_copy_def)
  have "entry_field (length h2) i k (h2 @ [ListObj ys]) = Some v"
    using i e1(1) at_e len
    by (simp add: entry_field_def list_getitem_def dict_getitem_def nth_append update_conv')
  with call show "\<exists>r2 h3. accessor_call GetAuditLog ob (dict_setitem e k v h1) = Some (r2, h3)
           \<and> entry_field r2 i k h3 = Some v"
    unfolding h2 by blast
qed

text \<open>
  C8, at the calls \<^verbatim>\<open>log = get_audit_log(); log[0]['success'] = False;
  get_audit_log()\<close> on the example account. The first result shows the
  \<^verbatim>\<open>USER_CREATED\<close> entry with \<^verbatim>\<open>success\<close> True; its item 0 is the address of the entry
  dict of the stored audit log. After the caller's write, the result of the next call
  and the stored audit log both show \<^verbatim>\<open>success\<close> False: the caller's mutation has
  changed what the accessor returns, through a live reference to internal storage.
\<close>

theorem audit_entry_write_through:
  "accessor_call GetAuditLog alice_object alice_store =
     Some (3, alice_store @ [ListObj [VRef 0]])
   \<and> list_getitem 3 0 (alice_store @ [ListObj [VRef 0]]) = Some (VRef 0)
   \<and> entry_field 3 0 ''success'' (alice_store @ [ListObj [VRef 0]]) = Some (VBool True)
   \<and> accessor_call GetAuditLog alice_object
        (dict_setitem 0 ''success'' (VBool False) (alice_store @ [ListObj [VRef 0]])) =
       Some (4, dict_setitem 0 ''success'' (VBool False) (alice_store @ [ListObj [VRef 0]])
                @ [ListObj [VRef 0]])
   \<and> entry_field 4 0 ''success''
        (dict_setitem 0 ''success'' (VBool False) (alice_store @ [ListObj [VRef 0]])
         @ [ListObj [VRef 0]]) = Some (VBool False)
   \<and> entry_field (obj_audit_log alice_object) 0 ''success''
        (dict_setitem 0 ''success'' (VBool False) (alice_store @ [ListObj [VRef 0]])) =
       Some (VBool False)"
  by (simp add: alice_store_eq store_get_audit_log_def list_copy_def list_getitem_def
      dict_getitem_def entry_field_def dict_setitem_def eval_nat_numeral)

end
